theory Spec2Isabelle
  imports Main
begin

section \<open>Statement.js: statement analysis, expansion and identifier rewriting\<close>

text \<open>
  A shallow embedding of \<^verbatim>\<open>src/Statement.js\<close>. Objects that the code mutates
  are passed explicitly and returned updated, a \<^verbatim>\<open>throw\<close> is the left injection
  of a sum, and the objects a statement refers to (scopes, other statements) live in
  stores that are indexed by natural numbers.
\<close>

subsection \<open>Objects used as name sets and name tables\<close>

text \<open>
  \<^verbatim>\<open>blank()\<close> creates an object without prototype. The code uses such objects as
  sets (\<^verbatim>\<open>obj[ name ] = true\<close>) and as tables (\<^verbatim>\<open>names[ name ]\<close>); their keys
  are enumerated in insertion order, and assigning to an existing key keeps its place.
  A set is the list of its keys, a table is an association list.
\<close>

definition set_true :: "string \<Rightarrow> string list \<Rightarrow> string list" where
  "set_true k ks = (if k \<in> set ks then ks else ks @ [k])"

fun assign :: "string \<Rightarrow> 'v \<Rightarrow> (string \<times> 'v) list \<Rightarrow> (string \<times> 'v) list" where
  "assign k v [] = [(k, v)]"
| "assign k v ((k', v') # kvs) =
     (if k' = k then (k, v) # kvs else (k', v') # assign k v kvs)"

text \<open>A property key computed from a value that may be \<^verbatim>\<open>undefined\<close>.\<close>

definition name_key :: "string option \<Rightarrow> string" where
  "name_key n = (case n of None \<Rightarrow> ''undefined'' | Some s \<Rightarrow> s)"

subsection \<open>Syntax nodes\<close>

text \<open>
  A node carries the scalar properties that the code reads (\<^verbatim>\<open>type\<close>, \<^verbatim>\<open>start\<close>,
  \<^verbatim>\<open>end\<close>, \<^verbatim>\<open>name\<close>, \<^verbatim>\<open>computed\<close>, \<^verbatim>\<open>kind\<close>), the two annotations that the code
  attaches (\<^verbatim>\<open>_scope\<close>, a reference into the scope store, and \<^verbatim>\<open>_skip\<close>), and its
  child nodes, each under the property key that holds it. The elements of an array
  property appear under the same key, in index order. A child reached under key
  \<open>k\<close> is the object \<^verbatim>\<open>parent.k\<close>, so \<^verbatim>\<open>node !== parent.object\<close> is \<open>k \<noteq> ''object''\<close>.
  Every child is an object of its own: a tree in which one node is held under two
  keys of its parent, as the key and the value of a shorthand property are, is not
  among the trees of this type, and the walks below visit every child once.
\<close>

record attrs =
  ntype :: string
  nstart :: nat
  nend :: nat
  name :: "string option"
  computed :: bool
  kind :: string
  scope_tag :: "nat option"
  skip_tag :: bool

datatype node = Node (attrs: attrs) (children: "(string \<times> node) list")

text \<open>\<^verbatim>\<open>node.k\<close> for a property holding one node, and for one holding an array.\<close>

fun field :: "(string \<times> node) list \<Rightarrow> string \<Rightarrow> node option" where
  "field [] k = None"
| "field ((k', c) # cs) k = (if k' = k then Some c else field cs k)"

definition field_list :: "(string \<times> node) list \<Rightarrow> string \<Rightarrow> node list" where
  "field_list cs k = map snd (filter (\<lambda>kc. fst kc = k) cs)"

lemma field_size [termination_simp]:
  "field cs k = Some c \<Longrightarrow> size c < Suc (size_list (\<lambda>x. Suc (size (snd x))) cs)"
  by (induction cs) (auto split: if_splits)

subsection \<open>Errors\<close>

text \<open>
  The one error that the code throws itself, with the name in its message, its
  \<^verbatim>\<open>file\<close> and its \<^verbatim>\<open>loc\<close>, and the \<^verbatim>\<open>TypeError\<close> of the language for a property
  read from \<^verbatim>\<open>null\<close> or \<^verbatim>\<open>undefined\<close>, labelled with the expression that was
  dereferenced.
\<close>

datatype error =
    IllegalReassignment string string "nat \<times> nat"
  | TypeError string

subsection \<open>Scopes\<close>

text \<open>
  Scope objects are shared and mutated (a declaration met late is visible from inner
  scopes created earlier), so they live in a store; a scope reference is an index.
\<close>

record scope =
  parent :: "nat option"
  depth :: nat
  declarations :: "string list"
  isBlockScope :: bool

type_synonym scope_store = "scope list"

text \<open>
  Modelled from the spec: \<^verbatim>\<open>ast/Scope.js\<close> is not among the sources. A scope is
  created with an optional parent, the parameter nodes whose names it declares and
  its block flag; its depth is the distance from the root.
\<close>

definition new_scope ::
  "scope_store \<Rightarrow> nat option \<Rightarrow> string list \<Rightarrow> bool \<Rightarrow> scope_store \<times> nat" where
  "new_scope h p params block =
     (h @ [\<lparr>parent = p,
            depth = (case p of None \<Rightarrow> 0
                     | Some i \<Rightarrow> if i < length h then depth (h ! i) + 1 else 0),
            declarations = foldl (\<lambda>ks k. set_true k ks) [] params,
            isBlockScope = block\<rparr>],
      length h)"

text \<open>
  Modelled from the spec: \<^verbatim>\<open>addDeclaration\<close>. A block-scoped declaration registers in
  this scope; a function-scoped one registers at the nearest function-or-root scope.
  A scope is created after its parent, so a parent reference is smaller than the
  scope's own; the walk outwards stops at a reference that is not.
\<close>

function addDeclaration :: "scope_store \<Rightarrow> nat \<Rightarrow> string \<Rightarrow> bool \<Rightarrow> scope_store" where
  "addDeclaration h i nm isBlockDeclaration =
     (if i < length h then
        (if \<not> isBlockDeclaration \<and> isBlockScope (h ! i) \<and>
            (case parent (h ! i) of None \<Rightarrow> False | Some p \<Rightarrow> p < i)
         then addDeclaration h (the (parent (h ! i))) nm isBlockDeclaration
         else h[i := (h ! i)\<lparr>declarations := set_true nm (declarations (h ! i))\<rparr>])
      else h)"
  by pat_completeness auto
termination
  by (relation "measure (\<lambda>(h, i, nm, b). i)") (auto split: option.splits)

text \<open>
  Modelled from the spec: \<^verbatim>\<open>findDefiningScope\<close> walks outward from this scope to the
  root and returns the nearest scope that declares the name, or none.
\<close>

function findDefiningScope :: "scope_store \<Rightarrow> nat \<Rightarrow> string \<Rightarrow> nat option" where
  "findDefiningScope h i nm =
     (if i < length h then
        (if nm \<in> set (declarations (h ! i)) then Some i
         else (case parent (h ! i) of
                 None \<Rightarrow> None
               | Some p \<Rightarrow> if p < i then findDefiningScope h p nm else None))
      else None)"
  by pat_completeness auto
termination
  by (relation "measure (\<lambda>(h, i, nm). i)") auto

text \<open>
  Modelled from the spec: \<^verbatim>\<open>contains\<close> is true if this scope or an ancestor declares
  the name.
\<close>

definition contains :: "scope_store \<Rightarrow> nat \<Rightarrow> string \<Rightarrow> bool" where
  "contains h i nm = (findDefiningScope h i nm \<noteq> None)"

subsection \<open>Modules, text buffers and statements\<close>

text \<open>
  Of a module the code reads \<^verbatim>\<open>imports\<close> (local name to import specifier, of which
  only \<^verbatim>\<open>name\<close> is read), \<^verbatim>\<open>path\<close>, the text of its buffer
  (\<^verbatim>\<open>module.magicString.toString()\<close>, the field \<open>source\<close>), \<^verbatim>\<open>modifications\<close> (name to
  the statements that modify it) and \<^verbatim>\<open>define\<close>. Statements are referred to by their
  index in the session's statement store. \<open>definitions\<close> is the table in which
  \<^verbatim>\<open>define\<close> looks a name up (see \<open>define_m\<close> below).

  Some names of the code are keywords here and carry a suffix: \<open>imports_m\<close>,
  \<open>defines_s\<close>, \<open>define_m\<close>; the node properties \<^verbatim>\<open>type\<close>, \<^verbatim>\<open>start\<close>, \<^verbatim>\<open>end\<close>,
  \<^verbatim>\<open>_scope\<close> and \<^verbatim>\<open>_skip\<close> are \<open>ntype\<close>, \<open>nstart\<close>, \<open>nend\<close>, \<open>scope_tag\<close> and
  \<open>skip_tag\<close>.
\<close>

record import_specifier =
  spec_name :: string

record module =
  path :: string
  source :: string
  imports_m :: "(string \<times> import_specifier) list"
  modifications :: "(string \<times> nat list) list"
  definitions :: "(string \<times> nat list) list"

text \<open>
  The text buffer is an external library that is used through five operations. A
  buffer is the log of the operations applied to it; \<^verbatim>\<open>clone()\<close> copies the log.
\<close>

datatype edit =
    AddSourcemapLocation nat
  | Overwrite nat nat string
  | Insert nat string
  | Append string

type_synonym buffer = "edit list"

record statement =
  node :: node
  module :: module
  magicString :: buffer
  scopes :: scope_store
  scope :: nat
  defines_s :: "string list"
  modifies :: "string list"
  dependsOn :: "string list"
  isIncluded :: bool
  isImportDeclaration :: bool
  isExportDeclaration :: bool

text \<open>
  The constructor. The statement's own scope \<^verbatim>\<open>new Scope()\<close> is the first object of
  its scope store. The fields \<^verbatim>\<open>leadingComments\<close>, \<^verbatim>\<open>trailingComment\<close> and \<^verbatim>\<open>margin\<close>
  are not read by this file and are left out.
\<close>

definition Statement :: "node \<Rightarrow> buffer \<Rightarrow> module \<Rightarrow> statement" where
  "Statement n ms m =
     \<lparr>node = n, module = m, magicString = ms,
      scopes = fst (new_scope [] None [] False), scope = snd (new_scope [] None [] False),
      defines_s = [], modifies = [], dependsOn = [],
      isIncluded = False,
      isImportDeclaration = (ntype (attrs n) = ''ImportDeclaration''),
      isExportDeclaration = (take 6 (ntype (attrs n)) = ''Export'')\<rparr>"

subsection \<open>Read and write classification\<close>

text \<open>
  \<^verbatim>\<open>checkForReads ( scope, node, parent )\<close>. The parent is given by its scalar
  properties and the key under which it holds the node; the root of a walk has none.
  The current scope of a walk is a variable that \<^verbatim>\<open>scope = scope.parent\<close> can leave
  undefined, hence the option.
\<close>

definition checkForReads ::
  "statement \<Rightarrow> nat option \<Rightarrow> node \<Rightarrow> (attrs \<times> string) option \<Rightarrow> error + statement" where
  "checkForReads st sc n par =
     (if ntype (attrs n) = ''Identifier'' then
        (case par of
           None \<Rightarrow> Inl (TypeError ''parent.type'')
         | Some (pa, k) \<Rightarrow>
             if ntype pa = ''MemberExpression'' \<and> k \<noteq> ''object'' then Inr st
             else if ntype pa = ''Property'' \<and> k \<noteq> ''value'' then Inr st
             else
               (case sc of
                  None \<Rightarrow> Inl (TypeError ''scope.findDefiningScope'')
                | Some i \<Rightarrow>
                    (let definingScope = findDefiningScope (scopes st) i (name_key (name (attrs n)))
                     in if (case definingScope of None \<Rightarrow> True
                            | Some d \<Rightarrow> depth (scopes st ! d) = 0)
                           \<and> name_key (name (attrs n)) \<notin> set (defines_s st)
                        then Inr (st\<lparr>dependsOn := set_true (name_key (name (attrs n))) (dependsOn st)\<rparr>)
                        else Inr st)))
      else Inr st)"

text \<open>The loop of \<^verbatim>\<open>addNode\<close> that unwraps member expressions and counts them.\<close>

fun unwrap :: "node \<Rightarrow> nat \<Rightarrow> error + (node \<times> nat)" where
  "unwrap (Node a cs) d =
     (if ntype a = ''MemberExpression'' then
        (case field cs ''object'' of
           None \<Rightarrow> Inl (TypeError ''node.type'')
         | Some c \<Rightarrow> unwrap c (d + 1))
      else Inr (Node a cs, d))"

text \<open>
  \<^verbatim>\<open>addNode\<close>, the closure of \<^verbatim>\<open>checkForWrites\<close>. \<^verbatim>\<open>getLocation\<close> is not among the
  sources and is a parameter: it maps the module's text and an offset to a location.
\<close>

definition addNode ::
  "(string \<Rightarrow> nat \<Rightarrow> nat \<times> nat) \<Rightarrow> statement \<Rightarrow> nat option \<Rightarrow> node option \<Rightarrow> bool
     \<Rightarrow> error + statement" where
  "addNode getLocation st sc target disallowImportReassignments =
     (case target of
        None \<Rightarrow> Inl (TypeError ''node.type'')
      | Some t \<Rightarrow>
     (case unwrap t 0 of
        Inl e \<Rightarrow> Inl e
      | Inr (n, d) \<Rightarrow>
          (let nm = name_key (name (attrs n)) in
           (case (if disallowImportReassignments then
                    (case map_of (imports_m (module st)) nm of
                       None \<Rightarrow> Inr ()
                     | Some importSpecifier \<Rightarrow>
                         (case sc of
                            None \<Rightarrow> Inl (TypeError ''scope.contains'')
                          | Some i \<Rightarrow>
                              if \<not> contains (scopes st) i nm then
                                (let minDepth = (if spec_name importSpecifier = ''*'' then 2 else 1 :: nat)
                                 in if d < minDepth
                                    then Inl (IllegalReassignment nm (path (module st))
                                               (getLocation (source (module st)) (nstart (attrs n))))
                                    else Inr ())
                              else Inr ()))
                  else Inr ()) of
              Inl e \<Rightarrow> Inl e
            | Inr _ \<Rightarrow>
                if ntype (attrs n) \<noteq> ''Identifier'' then Inr st
                else Inr (st\<lparr>modifies := set_true nm (modifies st)\<rparr>)))))"

text \<open>\<^verbatim>\<open>node.arguments.forEach( arg => addNode( arg, false ) )\<close>\<close>

fun addNodes ::
  "(string \<Rightarrow> nat \<Rightarrow> nat \<times> nat) \<Rightarrow> statement \<Rightarrow> nat option \<Rightarrow> node list
     \<Rightarrow> error + statement" where
  "addNodes getLocation st sc [] = Inr st"
| "addNodes getLocation st sc (arg # args) =
     (case addNode getLocation st sc (Some arg) False of
        Inl e \<Rightarrow> Inl e
      | Inr st' \<Rightarrow> addNodes getLocation st' sc args)"

definition checkForWrites ::
  "(string \<Rightarrow> nat \<Rightarrow> nat \<times> nat) \<Rightarrow> statement \<Rightarrow> nat option \<Rightarrow> node \<Rightarrow> error + statement" where
  "checkForWrites getLocation st sc n =
     (if ntype (attrs n) = ''AssignmentExpression'' then
        addNode getLocation st sc (field (children n) ''left'') True
      else if ntype (attrs n) = ''UpdateExpression'' then
        addNode getLocation st sc (field (children n) ''argument'') True
      else if ntype (attrs n) = ''CallExpression'' then
        addNodes getLocation st sc (field_list (children n) ''arguments'')
      else Inr st)"

subsection \<open>The two walks of analyse\<close>

text \<open>
  Modelled from the spec: \<^verbatim>\<open>ast/walk.js\<close> is not among the sources. A walk visits
  a node by calling \<^verbatim>\<open>enter\<close>, then walks the children in order, then calls
  \<^verbatim>\<open>leave\<close>; when \<^verbatim>\<open>enter\<close> calls \<^verbatim>\<open>this.skip()\<close> neither the children nor
  \<^verbatim>\<open>leave\<close> follow. Each walk below is that traversal with the callbacks of one call
  site written in. An exception leaves the walk at once.
\<close>

text \<open>\<^verbatim>\<open>blockDeclarations\<close> of the scope: a \<^verbatim>\<open>let\<close> or \<^verbatim>\<open>const\<close> declaration.\<close>

definition isBlockDeclaration :: "attrs \<Rightarrow> bool" where
  "isBlockDeclaration a =
     (ntype a = ''VariableDeclaration'' \<and> (kind a = ''let'' \<or> kind a = ''const''))"

text \<open>\<^verbatim>\<open>scope.addDeclaration( x.id.name, node )\<close> with the current scope of the walk.\<close>

definition declare_id ::
  "scope_store \<Rightarrow> nat option \<Rightarrow> string \<Rightarrow> node option \<Rightarrow> attrs \<Rightarrow> error + scope_store" where
  "declare_id h sc what ident a =
     (case sc of
        None \<Rightarrow> Inl (TypeError ''scope.addDeclaration'')
      | Some s \<Rightarrow>
          (case ident of
             None \<Rightarrow> Inl (TypeError what)
           | Some i \<Rightarrow> Inr (addDeclaration h s (name_key (name (attrs i))) (isBlockDeclaration a))))"

text \<open>\<^verbatim>\<open>node.declarations.forEach( declarator => ... )\<close> of the first walk.\<close>

fun declare_all ::
  "scope_store \<Rightarrow> nat option \<Rightarrow> node list \<Rightarrow> attrs \<Rightarrow> error + scope_store" where
  "declare_all h sc [] a = Inr h"
| "declare_all h sc (declarator # ds) a =
     (case declare_id h sc ''declarator.id.name'' (field (children declarator) ''id'') a of
        Inl e \<Rightarrow> Inl e
      | Inr h' \<Rightarrow> declare_all h' sc ds a)"

text \<open>
  The \<^verbatim>\<open>switch\<close> of the first walk's \<^verbatim>\<open>enter\<close>: the scope store after the
  declarations, and the new scope if the node opens one.
\<close>

definition enter_switch ::
  "scope_store \<Rightarrow> nat option \<Rightarrow> node \<Rightarrow> error + (scope_store \<times> nat option)" where
  "enter_switch h sc n =
     (let a = attrs n; cs = children n; t = ntype a in
      if t = ''FunctionExpression'' \<or> t = ''FunctionDeclaration'' \<or> t = ''ArrowFunctionExpression''
      then
        (case (if t = ''FunctionDeclaration''
               then declare_id h sc ''node.id.name'' (field cs ''id'') a else Inr h) of
           Inl e \<Rightarrow> Inl e
         | Inr h1 \<Rightarrow>
             (let (h2, newScope) =
                    new_scope h1 sc (map (\<lambda>p. name_key (name (attrs p))) (field_list cs ''params'')) False
              in if t = ''FunctionExpression'' \<and> field cs ''id'' \<noteq> None
                 then (case declare_id h2 (Some newScope) ''node.id.name'' (field cs ''id'') a of
                         Inl e \<Rightarrow> Inl e
                       | Inr h3 \<Rightarrow> Inr (h3, Some newScope))
                 else Inr (h2, Some newScope)))
      else if t = ''BlockStatement'' then
        (let (h1, newScope) = new_scope h sc [] True in Inr (h1, Some newScope))
      else if t = ''CatchClause'' then
        (case field cs ''param'' of
           None \<Rightarrow> Inl (TypeError ''param.name'')
         | Some p \<Rightarrow>
             (let (h1, newScope) = new_scope h sc [name_key (name (attrs p))] True
              in Inr (h1, Some newScope)))
      else if t = ''VariableDeclaration'' then
        (case declare_all h sc (field_list cs ''declarations'') a of
           Inl e \<Rightarrow> Inl e
         | Inr h1 \<Rightarrow> Inr (h1, None))
      else if t = ''ClassDeclaration'' then
        (case declare_id h sc ''node.id.name'' (field cs ''id'') a of
           Inl e \<Rightarrow> Inl e
         | Inr h1 \<Rightarrow> Inr (h1, None))
      else Inr (h, None))"

text \<open>
  \<^verbatim>\<open>enter\<close> of the first walk: the statement (its buffer and scope store updated),
  the current scope and the node's properties, tagged if it opened a scope.
  \<^verbatim>\<open>Object.defineProperty\<close> refuses to redefine \<^verbatim>\<open>_scope\<close>.
\<close>

definition enter1 ::
  "statement \<Rightarrow> nat option \<Rightarrow> node \<Rightarrow> error + (statement \<times> nat option \<times> attrs)" where
  "enter1 st sc n =
     (let st1 = st\<lparr>magicString := magicString st @ [AddSourcemapLocation (nstart (attrs n))]\<rparr> in
      case enter_switch (scopes st1) sc n of
        Inl e \<Rightarrow> Inl e
      | Inr (h, newScope) \<Rightarrow>
          (case newScope of
             None \<Rightarrow> Inr (st1\<lparr>scopes := h\<rparr>, sc, attrs n)
           | Some s \<Rightarrow>
               if scope_tag (attrs n) \<noteq> None then Inl (TypeError ''Cannot redefine property: _scope'')
               else Inr (st1\<lparr>scopes := h\<rparr>, Some s, (attrs n)\<lparr>scope_tag := Some s\<rparr>)))"

text \<open>\<^verbatim>\<open>leave\<close> of both walks: \<^verbatim>\<open>if ( node._scope ) scope = scope.parent\<close>.\<close>

definition leave_scope :: "scope_store \<Rightarrow> nat option \<Rightarrow> attrs \<Rightarrow> error + nat option" where
  "leave_scope h sc a =
     (if scope_tag a \<noteq> None then
        (case sc of
           None \<Rightarrow> Inl (TypeError ''scope.parent'')
         | Some s \<Rightarrow> if s < length h then Inr (parent (h ! s)) else Inl (TypeError ''scope.parent''))
      else Inr sc)"

fun walk1 :: "statement \<Rightarrow> nat option \<Rightarrow> node \<Rightarrow> error + (statement \<times> nat option \<times> node)"
  and walk1_children ::
    "statement \<Rightarrow> nat option \<Rightarrow> (string \<times> node) list
       \<Rightarrow> error + (statement \<times> nat option \<times> (string \<times> node) list)" where
  "walk1 st sc (Node a cs) =
     (case enter1 st sc (Node a cs) of
        Inl e \<Rightarrow> Inl e
      | Inr (st1, sc1, a1) \<Rightarrow>
          (case walk1_children st1 sc1 cs of
             Inl e \<Rightarrow> Inl e
           | Inr (st2, sc2, cs2) \<Rightarrow>
               (case leave_scope (scopes st2) sc2 a1 of
                  Inl e \<Rightarrow> Inl e
                | Inr sc3 \<Rightarrow> Inr (st2, sc3, Node a1 cs2))))"
| "walk1_children st sc [] = Inr (st, sc, [])"
| "walk1_children st sc ((k, c) # cs) =
     (case walk1 st sc c of
        Inl e \<Rightarrow> Inl e
      | Inr (st1, sc1, c1) \<Rightarrow>
          (case walk1_children st1 sc1 cs of
             Inl e \<Rightarrow> Inl e
           | Inr (st2, sc2, cs2) \<Rightarrow> Inr (st2, sc2, (k, c1) # cs2)))"

text \<open>\<^verbatim>\<open>enter\<close> of the second walk.\<close>

definition enter2 ::
  "(string \<Rightarrow> nat \<Rightarrow> nat \<times> nat) \<Rightarrow> statement \<Rightarrow> nat option \<Rightarrow> node
     \<Rightarrow> (attrs \<times> string) option \<Rightarrow> error + (statement \<times> nat option)" where
  "enter2 getLocation st sc n par =
     (let sc1 = (if scope_tag (attrs n) \<noteq> None then scope_tag (attrs n) else sc) in
      case checkForReads st sc1 n par of
        Inl e \<Rightarrow> Inl e
      | Inr st1 \<Rightarrow>
          (case checkForWrites getLocation st1 sc1 n of
             Inl e \<Rightarrow> Inl e
           | Inr st2 \<Rightarrow> Inr (st2, sc1)))"

fun walk2 ::
    "(string \<Rightarrow> nat \<Rightarrow> nat \<times> nat) \<Rightarrow> statement \<Rightarrow> nat option \<Rightarrow> (attrs \<times> string) option
       \<Rightarrow> node \<Rightarrow> error + (statement \<times> nat option)"
  and walk2_children ::
    "(string \<Rightarrow> nat \<Rightarrow> nat \<times> nat) \<Rightarrow> statement \<Rightarrow> nat option \<Rightarrow> attrs
       \<Rightarrow> (string \<times> node) list \<Rightarrow> error + (statement \<times> nat option)" where
  "walk2 getLocation st sc par (Node a cs) =
     (case enter2 getLocation st sc (Node a cs) par of
        Inl e \<Rightarrow> Inl e
      | Inr (st1, sc1) \<Rightarrow>
          (case walk2_children getLocation st1 sc1 a cs of
             Inl e \<Rightarrow> Inl e
           | Inr (st2, sc2) \<Rightarrow>
               (case leave_scope (scopes st2) sc2 a of
                  Inl e \<Rightarrow> Inl e
                | Inr sc3 \<Rightarrow> Inr (st2, sc3))))"
| "walk2_children getLocation st sc pa [] = Inr (st, sc)"
| "walk2_children getLocation st sc pa ((k, c) # cs) =
     (case walk2 getLocation st sc (Some (pa, k)) c of
        Inl e \<Rightarrow> Inl e
      | Inr (st1, sc1) \<Rightarrow> walk2_children getLocation st1 sc1 pa cs)"

subsection \<open>analyse\<close>

text \<open>
  After the walks the names declared in the current scope (the statement's own scope
  again, when every scope that was entered has been left) are copied into
  \<^verbatim>\<open>defines\<close>.
\<close>

definition analyse :: "(string \<Rightarrow> nat \<Rightarrow> nat \<times> nat) \<Rightarrow> statement \<Rightarrow> error + statement" where
  "analyse getLocation st =
     (if isImportDeclaration st then Inr st
      else
        (case walk1 st (Some (scope st)) (node st) of
           Inl e \<Rightarrow> Inl e
         | Inr (st1, sc1, n1) \<Rightarrow>
             (case walk2 getLocation (st1\<lparr>node := n1\<rparr>) sc1 None n1 of
                Inl e \<Rightarrow> Inl e
              | Inr (st2, sc2) \<Rightarrow>
                  (case sc2 of
                     None \<Rightarrow> Inl (TypeError ''scope.declarations'')
                   | Some s \<Rightarrow>
                       if s < length (scopes st2)
                       then Inr (st2\<lparr>defines_s :=
                                   foldl (\<lambda>d k. set_true k d) (defines_s st2)
                                     (declarations (scopes st2 ! s))\<rparr>)
                       else Inl (TypeError ''scope.declarations'')))))"

subsection \<open>replaceIdentifiers\<close>

text \<open>
  The value of \<^verbatim>\<open>scope.declarations[ name ]\<close> is the declaring node, an object, or
  \<^verbatim>\<open>undefined\<close>. The operator \<^verbatim>\<open>~\<close> converts its operand to a 32-bit integer
  first; both an object without numeric value and \<^verbatim>\<open>undefined\<close> convert to
  \<^verbatim>\<open>NaN\<close> and then to 0.
\<close>

datatype jsval = Undefined | Object

definition declared :: "scope_store \<Rightarrow> nat \<Rightarrow> string \<Rightarrow> bool" where
  "declared h s k = (s < length h \<and> k \<in> set (declarations (h ! s)))"

definition lookup_declaration :: "scope_store \<Rightarrow> nat \<Rightarrow> string \<Rightarrow> jsval" where
  "lookup_declaration h s k = (if declared h s k then Object else Undefined)"

fun truthy :: "jsval \<Rightarrow> bool" where
  "truthy Undefined = False"
| "truthy Object = True"

fun to_int32 :: "jsval \<Rightarrow> int" where
  "to_int32 Undefined = 0"
| "to_int32 Object = 0"

definition bitwise_not :: "jsval \<Rightarrow> int" where
  "bitwise_not v = - to_int32 v - 1"

definition truthy_int :: "int \<Rightarrow> bool" where
  "truthy_int i = (i \<noteq> 0)"

text \<open>A string is truthy when it is not empty; a missing entry is \<^verbatim>\<open>undefined\<close>.\<close>

definition truthy_entry :: "(string \<times> string) list \<Rightarrow> string \<Rightarrow> bool" where
  "truthy_entry tbl k = (case map_of tbl k of None \<Rightarrow> False | Some v \<Rightarrow> v \<noteq> [])"

definition entry :: "(string \<times> string) list \<Rightarrow> string \<Rightarrow> string" where
  "entry tbl k = (case map_of tbl k of None \<Rightarrow> ''undefined'' | Some v \<Rightarrow> v)"

text \<open>
  What stays the same during the walk: whether \<^verbatim>\<open>insert\<close> of the buffer library
  throws for a buffer, an offset and a text (a parameter), the scope store,
  \<^verbatim>\<open>deshadowList\<close> and \<^verbatim>\<open>bundleExports\<close>. What the callbacks change: the cloned
  buffer, \<^verbatim>\<open>topLevel\<close>, \<^verbatim>\<open>names\<close> (undefined if read from an empty stack) and
  \<^verbatim>\<open>replacementStack\<close>.
\<close>

record walk_context =
  insert_throws :: "buffer \<Rightarrow> nat \<Rightarrow> string \<Rightarrow> bool"
  scope_objects :: scope_store
  deshadowList :: "string list"
  bundleExports :: "(string \<times> string) list"

record rewriting =
  buf :: buffer
  topLevel :: bool
  names :: "(string \<times> string) list option"
  replacementStack :: "(string \<times> string) list list"

text \<open>\<^verbatim>\<open>node.declarations[0].id._skip = true\<close>\<close>

fun set_skip :: "node \<Rightarrow> node" where
  "set_skip (Node a cs) = Node (a\<lparr>skip_tag := True\<rparr>) cs"

fun update_field ::
  "string \<Rightarrow> (node \<Rightarrow> node) \<Rightarrow> (string \<times> node) list \<Rightarrow> (string \<times> node) list" where
  "update_field k f [] = []"
| "update_field k f ((k', c) # cs) =
     (if k' = k then (k', f c) # cs else (k', c) # update_field k f cs)"

fun set_skip_id :: "node \<Rightarrow> node" where
  "set_skip_id (Node a cs) = Node a (update_field ''id'' set_skip cs)"

definition mark_skip :: "(string \<times> node) list \<Rightarrow> (string \<times> node) list" where
  "mark_skip cs = update_field ''declarations'' set_skip_id cs"

text \<open>\<^verbatim>\<open>node.declarations.map( declarator => declarator.id.name )\<close>\<close>

fun declarator_names :: "node list \<Rightarrow> error + string list" where
  "declarator_names [] = Inr []"
| "declarator_names (d # ds) =
     (case field (children d) ''id'' of
        None \<Rightarrow> Inl (TypeError ''declarator.id.name'')
      | Some i \<Rightarrow>
          (case declarator_names ds of
             Inl e \<Rightarrow> Inl e
           | Inr ns \<Rightarrow> Inr (name_key (name (attrs i)) # ns)))"

definition exportInitialisers :: "(string \<times> string) list \<Rightarrow> string list \<Rightarrow> string" where
  "exportInitialisers be ns =
     concat (map (\<lambda>n. [CHR 0x0A] @ entry be n @ '' = '' @ n @ '';'')
               (filter (\<lambda>n. truthy_entry be n) ns))"

text \<open>
  The special case of \<^verbatim>\<open>enter\<close> for a variable declaration met while \<^verbatim>\<open>topLevel\<close>
  holds: the buffer afterwards, and whether the first declarator's identifier was
  marked.
\<close>

definition export_rewrite :: "walk_context \<Rightarrow> buffer \<Rightarrow> node \<Rightarrow> error + (buffer \<times> bool)" where
  "export_rewrite c b n =
     (let ds = field_list (children n) ''declarations'' in
      case ds of
        [] \<Rightarrow> Inl (TypeError ''node.declarations[0].id'')
      | d # _ \<Rightarrow>
          (case field (children d) ''id'' of
             None \<Rightarrow> Inl (TypeError ''node.declarations[0].id.name'')
           | Some i \<Rightarrow>
               (let nm = name_key (name (attrs i)) in
                if length ds = 1 \<and> truthy_entry (bundleExports c) nm
                then Inr (b @ [Overwrite (nstart (attrs n)) (nend (attrs i)) (entry (bundleExports c) nm)],
                          True)
                else
                  (case declarator_names ds of
                     Inl e \<Rightarrow> Inl e
                   | Inr ns \<Rightarrow>
                       (let txt = exportInitialisers (bundleExports c) ns in
                        if insert_throws c b (nend (attrs n)) txt
                        then Inr (b @ [Append txt], False)
                        else Inr (b @ [Insert (nend (attrs n)) txt], False))))))"

text \<open>The mapping that is active inside a scope, and \<^verbatim>\<open>hasReplacements\<close>.\<close>

definition newNames :: "walk_context \<Rightarrow> nat \<Rightarrow> (string \<times> string) list \<Rightarrow> (string \<times> string) list" where
  "newNames c s nms =
     foldl (\<lambda>acc nm.
              if truthy_int (bitwise_not (lookup_declaration (scope_objects c) s nm))
              then assign nm (nm @ ''$$'') acc else acc)
       (foldl (\<lambda>acc key.
                 if \<not> truthy (lookup_declaration (scope_objects c) s key)
                 then assign key (entry nms key) acc else acc)
          [] (map fst nms))
       (deshadowList c)"

definition hasReplacements :: "walk_context \<Rightarrow> nat \<Rightarrow> (string \<times> string) list \<Rightarrow> bool" where
  "hasReplacements c s nms =
     (list_ex (\<lambda>key. \<not> truthy (lookup_declaration (scope_objects c) s key)) (map fst nms) \<or>
      list_ex (\<lambda>nm. truthy_int (bitwise_not (lookup_declaration (scope_objects c) s nm)))
        (deshadowList c))"

text \<open>
  The end of \<^verbatim>\<open>enter\<close>: an identifier that is a reference is overwritten. The tests
  \<^verbatim>\<open>node !== parent.object\<close> and \<^verbatim>\<open>node !== parent.value\<close> compare the key under which
  the parent holds the node; they agree with the comparison of objects on the trees
  of this model, in which no node is held under two keys.
\<close>

definition rewrite_identifier ::
  "rewriting \<Rightarrow> (attrs \<times> string) option \<Rightarrow> node \<Rightarrow> error + rewriting" where
  "rewrite_identifier r par n =
     (if ntype (attrs n) \<noteq> ''Identifier'' then Inr r
      else
        (case par of
           None \<Rightarrow> Inl (TypeError ''parent.type'')
         | Some (pa, k) \<Rightarrow>
             if ntype pa = ''MemberExpression'' \<and> \<not> computed pa \<and> k \<noteq> ''object'' then Inr r
             else if ntype pa = ''Property'' \<and> k \<noteq> ''value'' then Inr r
             else
               (case names r of
                  None \<Rightarrow> Inl (TypeError ''names[ node.name ]'')
                | Some nms \<Rightarrow>
                    (case map_of nms (name_key (name (attrs n))) of
                       None \<Rightarrow> Inr r
                     | Some v \<Rightarrow>
                         if v \<noteq> [] \<and> Some v \<noteq> name (attrs n)
                         then Inr (r\<lparr>buf := buf r @ [Overwrite (nstart (attrs n)) (nend (attrs n)) v]\<rparr>)
                         else Inr r))))"

text \<open>
  \<^verbatim>\<open>enter\<close> of the walk of \<^verbatim>\<open>replaceIdentifiers\<close>: whether the walk skips the node,
  the state, and whether the first declarator's identifier was marked.
\<close>

definition enterR ::
  "walk_context \<Rightarrow> rewriting \<Rightarrow> (attrs \<times> string) option \<Rightarrow> node
     \<Rightarrow> error + (bool \<times> rewriting \<times> bool)" where
  "enterR c r par n =
     (if skip_tag (attrs n) then Inr (True, r, False)
      else
        (case (if topLevel r \<and> ntype (attrs n) = ''VariableDeclaration''
               then export_rewrite c (buf r) n else Inr (buf r, False)) of
           Inl e \<Rightarrow> Inl e
         | Inr (b, marked) \<Rightarrow>
             (let r1 = r\<lparr>buf := b\<rparr> in
              case scope_tag (attrs n) of
                None \<Rightarrow>
                  (case rewrite_identifier r1 par n of
                     Inl e \<Rightarrow> Inl e
                   | Inr r2 \<Rightarrow> Inr (False, r2, marked))
              | Some s \<Rightarrow>
                  (case names r1 of
                     None \<Rightarrow> Inl (TypeError ''keys( names )'')
                   | Some nms \<Rightarrow>
                       if \<not> hasReplacements c s nms
                       then Inr (True, r1\<lparr>topLevel := False\<rparr>, marked)
                       else
                         (case rewrite_identifier
                                 (r1\<lparr>topLevel := False, names := Some (newNames c s nms),
                                     replacementStack := replacementStack r1 @ [newNames c s nms]\<rparr>)
                                 par n of
                            Inl e \<Rightarrow> Inl e
                          | Inr r2 \<Rightarrow> Inr (False, r2, marked))))))"

text \<open>\<^verbatim>\<open>leave\<close> of the walk of \<^verbatim>\<open>replaceIdentifiers\<close>.\<close>

definition leaveR :: "rewriting \<Rightarrow> attrs \<Rightarrow> rewriting" where
  "leaveR r a =
     (if scope_tag a \<noteq> None then
        (let stack = butlast (replacementStack r)
         in r\<lparr>replacementStack := stack,
              names := (if stack = [] then None else Some (last stack))\<rparr>)
      else r)"

text \<open>The number of nodes of a tree; marking an identifier does not change it.\<close>

fun weight :: "node \<Rightarrow> nat" and weights :: "(string \<times> node) list \<Rightarrow> nat" where
  "weight (Node a cs) = Suc (weights cs)"
| "weights [] = 0"
| "weights ((k, c) # cs) = weight c + weights cs"

lemma weight_pos: "0 < weight n"
  by (cases n) simp

lemma weight_set_skip: "weight (set_skip n) = weight n"
  by (cases n) simp

lemma weights_update_field:
  "(\<And>n. weight (f n) = weight n) \<Longrightarrow> weights (update_field k f cs) = weights cs"
  by (induction cs) auto

lemma weight_set_skip_id: "weight (set_skip_id n) = weight n"
  by (cases n) (simp add: weights_update_field weight_set_skip)

lemma weights_mark_skip: "weights (mark_skip cs) = weights cs"
  by (simp add: mark_skip_def weights_update_field weight_set_skip_id)

function walkR ::
    "walk_context \<Rightarrow> rewriting \<Rightarrow> (attrs \<times> string) option \<Rightarrow> node \<Rightarrow> error + (rewriting \<times> node)"
  and walkR_children ::
    "walk_context \<Rightarrow> rewriting \<Rightarrow> attrs \<Rightarrow> (string \<times> node) list
       \<Rightarrow> error + (rewriting \<times> (string \<times> node) list)" where
  "walkR c r par (Node a cs) =
     (case enterR c r par (Node a cs) of
        Inl e \<Rightarrow> Inl e
      | Inr (skip, r1, marked) \<Rightarrow>
          if skip then Inr (r1, Node a (if marked then mark_skip cs else cs))
          else
            (case walkR_children c r1 a (if marked then mark_skip cs else cs) of
               Inl e \<Rightarrow> Inl e
             | Inr (r2, cs2) \<Rightarrow> Inr (leaveR r2 a, Node a cs2)))"
| "walkR_children c r pa [] = Inr (r, [])"
| "walkR_children c r pa ((k, ch) # cs) =
     (case walkR c r (Some (pa, k)) ch of
        Inl e \<Rightarrow> Inl e
      | Inr (r1, ch1) \<Rightarrow>
          (case walkR_children c r1 pa cs of
             Inl e \<Rightarrow> Inl e
           | Inr (r2, cs2) \<Rightarrow> Inr (r2, (k, ch1) # cs2)))"
  by pat_completeness auto
termination
  by (relation "measure (\<lambda>x. case x of
                   Inl (c, r, par, n) \<Rightarrow> 2 * weight n
                 | Inr (c, r, pa, cs) \<Rightarrow> 2 * weights cs + 1)")
     (auto simp: weights_mark_skip weight_pos)

text \<open>
  \<^verbatim>\<open>replaceIdentifiers ( names, bundleExports )\<close>: the edited clone and the statement
  afterwards. The replacement of a name is cut at its first dot for \<^verbatim>\<open>deshadowList\<close>.
\<close>

definition replaceIdentifiers ::
  "(buffer \<Rightarrow> nat \<Rightarrow> string \<Rightarrow> bool) \<Rightarrow> statement \<Rightarrow> (string \<times> string) list
     \<Rightarrow> (string \<times> string) list \<Rightarrow> error + (buffer \<times> statement)" where
  "replaceIdentifiers ins st nms be =
     (let nameList = map fst nms;
          c = \<lparr>insert_throws = ins, scope_objects = scopes st,
               deshadowList = map (\<lambda>nm. takeWhile (\<lambda>ch. ch \<noteq> CHR ''.'') (entry nms nm)) nameList,
               bundleExports = be\<rparr>
      in if length nameList > 0 \<or> 0 < length (map fst be) then
           (case walkR c \<lparr>buf = magicString st, topLevel = True, names = Some nms,
                           replacementStack = [nms]\<rparr> None (node st) of
              Inl e \<Rightarrow> Inl e
            | Inr (r, n') \<Rightarrow> Inr (buf r, st\<lparr>node := n'\<rparr>))
         else Inr (magicString st, st))"

subsection \<open>expand\<close>

text \<open>
  The statements of a bundling session live in a store; a statement reference
  (\<^verbatim>\<open>this\<close>, an element of \<^verbatim>\<open>modifications[ name ]\<close>) is an index into it, and a
  reference outside the store stands for no statement. \<^verbatim>\<open>expand\<close> changes
  \<^verbatim>\<open>isIncluded\<close> of statements and returns a list of statement references.
\<close>

type_synonym session = "statement list"

text \<open>
  Modelled from the spec: \<^verbatim>\<open>sequence\<close> of \<^verbatim>\<open>utils/promise\<close> is not among the sources.
  It runs the callback on the elements of an array one after the other, each after
  the promise of the one before has resolved; the promises are a strictly sequential
  chain, so the session is passed from each call to the next. Every callback of
  \<^verbatim>\<open>expand\<close> pushes what it obtained onto \<^verbatim>\<open>result\<close>; here it returns what it pushes.
  \<open>None\<close> is a chain that does not resolve.
\<close>

fun sequence ::
  "('a \<Rightarrow> session \<Rightarrow> (nat list \<times> session) option) \<Rightarrow> 'a list \<Rightarrow> session
     \<Rightarrow> (nat list \<times> session) option" where
  "sequence callback [] S = Some ([], S)"
| "sequence callback (x # xs) S =
     (case callback x S of
        None \<Rightarrow> None
      | Some (pushed, S1) \<Rightarrow>
          (case sequence callback xs S1 of
             None \<Rightarrow> None
           | Some (result, S2) \<Rightarrow> Some (pushed @ result, S2)))"

lemma sequence_cong [fundef_cong]:
  "xs = ys \<Longrightarrow> S = T \<Longrightarrow> (\<And>x U. x \<in> set ys \<Longrightarrow> f x U = g x U) \<Longrightarrow>
   sequence f xs S = sequence g ys T"
proof -
  assume a: "xs = ys" "S = T" and b: "\<And>x U. x \<in> set ys \<Longrightarrow> f x U = g x U"
  have "\<And>S. (\<And>x U. x \<in> set ys \<Longrightarrow> f x U = g x U) \<Longrightarrow> sequence f ys S = sequence g ys S"
    by (induction ys) (auto split: option.splits)
  then show ?thesis using a b by simp
qed

text \<open>
  \<^verbatim>\<open>expand ()\<close> of the statement \<open>i\<close>, and \<^verbatim>\<open>define\<close> of its module. The recursion
  of the code runs through \<^verbatim>\<open>define\<close> and through \<^verbatim>\<open>statement.expand()\<close>; its depth
  is bounded by the fuel, and \<open>None\<close> is returned when the fuel does not suffice.

  Modelled from the spec: \<^verbatim>\<open>Module.define\<close> is not among the sources. It locates the
  statements that define the name (the table \<open>definitions\<close> of the module) and calls
  \<^verbatim>\<open>expand()\<close> on them; a name without a definition expands to nothing.
\<close>

fun expand :: "nat \<Rightarrow> session \<Rightarrow> nat \<Rightarrow> (nat list \<times> session) option"
  and define_m :: "nat \<Rightarrow> session \<Rightarrow> module \<Rightarrow> string \<Rightarrow> (nat list \<times> session) option" where
  "expand 0 S i = None"
| "expand (Suc fuel) S i =
     (if i < length S then
        (if isIncluded (S ! i) then Some ([], S)
         else
           (case sequence (\<lambda>nm T. define_m fuel T (module (S ! i)) nm) (dependsOn (S ! i))
                   (S[i := (S ! i)\<lparr>isIncluded := True\<rparr>]) of
              None \<Rightarrow> None
            | Some (result, S1) \<Rightarrow>
                (case sequence
                        (\<lambda>nm T. case map_of (modifications (module (S ! i))) nm of
                                  None \<Rightarrow> Some ([], T)
                                | Some mods \<Rightarrow>
                                    sequence
                                      (\<lambda>j U. if j < length U \<and> \<not> isIncluded (U ! j)
                                              then expand fuel U j else Some ([], U))
                                      mods T)
                        (defines_s (S ! i)) S1 of
                   None \<Rightarrow> None
                 | Some (statements, S2) \<Rightarrow> Some (result @ [i] @ statements, S2))))
      else Some ([], S))"
| "define_m fuel S m nm =
     (case map_of (definitions m) nm of
        None \<Rightarrow> Some ([], S)
      | Some ids \<Rightarrow> sequence (\<lambda>i T. expand fuel T i) ids S)"

text \<open>The three callbacks of \<^verbatim>\<open>expand\<close>, by name.\<close>

definition include_modifier :: "nat \<Rightarrow> nat \<Rightarrow> session \<Rightarrow> (nat list \<times> session) option" where
  "include_modifier fuel j U =
     (if j < length U \<and> \<not> isIncluded (U ! j) then expand fuel U j else Some ([], U))"

definition include_modifiers ::
  "nat \<Rightarrow> module \<Rightarrow> string \<Rightarrow> session \<Rightarrow> (nat list \<times> session) option" where
  "include_modifiers fuel m nm T =
     (case map_of (modifications m) nm of
        None \<Rightarrow> Some ([], T)
      | Some mods \<Rightarrow> sequence (include_modifier fuel) mods T)"

definition include_dependency ::
  "nat \<Rightarrow> module \<Rightarrow> string \<Rightarrow> session \<Rightarrow> (nat list \<times> session) option" where
  "include_dependency fuel m nm T = define_m fuel T m nm"

subsection \<open>Building syntax trees\<close>

text \<open>Nodes as a parser delivers them: no annotation, and only the properties of their kind.\<close>

definition plain :: "string \<Rightarrow> nat \<Rightarrow> nat \<Rightarrow> attrs" where
  "plain t s e =
     \<lparr>ntype = t, nstart = s, nend = e, name = None, computed = False, kind = [],
      scope_tag = None, skip_tag = False\<rparr>"

definition Identifier :: "string \<Rightarrow> nat \<Rightarrow> nat \<Rightarrow> node" where
  "Identifier x s e = Node ((plain ''Identifier'' s e)\<lparr>name := Some x\<rparr>) []"

definition Literal :: "nat \<Rightarrow> nat \<Rightarrow> node" where
  "Literal s e = Node (plain ''Literal'' s e) []"

definition MemberExpression :: "bool \<Rightarrow> node \<Rightarrow> node \<Rightarrow> nat \<Rightarrow> nat \<Rightarrow> node" where
  "MemberExpression c obj prop s e =
     Node ((plain ''MemberExpression'' s e)\<lparr>computed := c\<rparr>) [(''object'', obj), (''property'', prop)]"

definition Property :: "node \<Rightarrow> node \<Rightarrow> nat \<Rightarrow> nat \<Rightarrow> node" where
  "Property k v s e = Node (plain ''Property'' s e) [(''key'', k), (''value'', v)]"

definition AssignmentExpression :: "node \<Rightarrow> node \<Rightarrow> nat \<Rightarrow> nat \<Rightarrow> node" where
  "AssignmentExpression l r s e =
     Node (plain ''AssignmentExpression'' s e) [(''left'', l), (''right'', r)]"

definition CallExpression :: "node \<Rightarrow> node list \<Rightarrow> nat \<Rightarrow> nat \<Rightarrow> node" where
  "CallExpression f args s e =
     Node (plain ''CallExpression'' s e) ((''callee'', f) # map (\<lambda>a. (''arguments'', a)) args)"

definition ExpressionStatement :: "node \<Rightarrow> nat \<Rightarrow> nat \<Rightarrow> node" where
  "ExpressionStatement x s e = Node (plain ''ExpressionStatement'' s e) [(''expression'', x)]"

definition FunctionDeclaration :: "node \<Rightarrow> node list \<Rightarrow> node \<Rightarrow> nat \<Rightarrow> nat \<Rightarrow> node" where
  "FunctionDeclaration i ps body s e =
     Node (plain ''FunctionDeclaration'' s e)
       ((''id'', i) # map (\<lambda>p. (''params'', p)) ps @ [(''body'', body)])"

definition BlockStatement :: "node list \<Rightarrow> nat \<Rightarrow> nat \<Rightarrow> node" where
  "BlockStatement body s e = Node (plain ''BlockStatement'' s e) (map (\<lambda>x. (''body'', x)) body)"

definition ReturnStatement :: "node \<Rightarrow> nat \<Rightarrow> nat \<Rightarrow> node" where
  "ReturnStatement x s e = Node (plain ''ReturnStatement'' s e) [(''argument'', x)]"

definition VariableDeclarator :: "node \<Rightarrow> node list \<Rightarrow> nat \<Rightarrow> nat \<Rightarrow> node" where
  "VariableDeclarator i init s e =
     Node (plain ''VariableDeclarator'' s e) ((''id'', i) # map (\<lambda>x. (''init'', x)) init)"

definition VariableDeclaration :: "string \<Rightarrow> node list \<Rightarrow> nat \<Rightarrow> nat \<Rightarrow> node" where
  "VariableDeclaration k ds s e =
     Node ((plain ''VariableDeclaration'' s e)\<lparr>kind := k\<rparr>) (map (\<lambda>d. (''declarations'', d)) ds)"

subsection \<open>Example modules and statements\<close>

text \<open>
  A location function for the examples: the line, counted from 1, and the column,
  counted from 0, of an offset in a text.
\<close>

definition line_column :: "string \<Rightarrow> nat \<Rightarrow> nat \<times> nat" where
  "line_column src i =
     (Suc (length (filter (\<lambda>ch. ch = CHR 0x0A) (take i src))),
      length (takeWhile (\<lambda>ch. ch \<noteq> CHR 0x0A) (rev (take i src))))"

text \<open>A module without imports, and one with \<^verbatim>\<open>import { x } from ...\<close> and
  \<^verbatim>\<open>import * as ns from ...\<close>.\<close>

definition plain_module :: "string \<Rightarrow> module" where
  "plain_module src =
     \<lparr>path = ''main.js'', source = src, imports_m = [], modifications = [], definitions = []\<rparr>"

definition importing_module :: "string \<Rightarrow> module" where
  "importing_module src =
     \<lparr>path = ''main.js'', source = src,
      imports_m = [(''x'', \<lparr>spec_name = ''x''\<rparr>), (''ns'', \<lparr>spec_name = ''*''\<rparr>)],
      modifications = [], definitions = []\<rparr>"

text \<open>\<^verbatim>\<open>export function a(){ return b(); }\<close>\<close>

definition export_function_a :: node where
  "export_function_a =
     Node (plain ''ExportNamedDeclaration'' 0 34)
       [(''declaration'',
         FunctionDeclaration (Identifier ''a'' 16 17) []
           (BlockStatement
              [ReturnStatement (CallExpression (Identifier ''b'' 28 29) [] 28 31) 21 32] 19 34)
           7 34)]"

text \<open>\<^verbatim>\<open>x = 5;\<close> and \<^verbatim>\<open>x.prop = 5;\<close> and \<^verbatim>\<open>ns.foo = 5;\<close> and \<^verbatim>\<open>f(x);\<close>\<close>

definition assign_x :: node where
  "assign_x =
     ExpressionStatement (AssignmentExpression (Identifier ''x'' 0 1) (Literal 4 5) 0 5) 0 6"

definition assign_x_prop :: node where
  "assign_x_prop =
     ExpressionStatement
       (AssignmentExpression
          (MemberExpression False (Identifier ''x'' 0 1) (Identifier ''prop'' 2 6) 0 6)
          (Literal 9 10) 0 10) 0 11"

definition assign_ns_foo :: node where
  "assign_ns_foo =
     ExpressionStatement
       (AssignmentExpression
          (MemberExpression False (Identifier ''ns'' 0 2) (Identifier ''foo'' 3 6) 0 6)
          (Literal 9 10) 0 10) 0 11"

definition call_f_x :: node where
  "call_f_x =
     ExpressionStatement (CallExpression (Identifier ''f'' 0 1) [Identifier ''x'' 2 3] 0 4) 0 5"

text \<open>\<^verbatim>\<open>a.b = 1;\<close> and \<^verbatim>\<open>({b: a});\<close> and \<^verbatim>\<open>a[b];\<close>\<close>

definition assign_a_b :: node where
  "assign_a_b =
     ExpressionStatement
       (AssignmentExpression
          (MemberExpression False (Identifier ''a'' 0 1) (Identifier ''b'' 2 3) 0 3)
          (Literal 6 7) 0 7) 0 8"

definition object_b_a :: node where
  "object_b_a =
     ExpressionStatement
       (Node (plain ''ObjectExpression'' 1 7)
          [(''properties'', Property (Identifier ''b'' 2 3) (Identifier ''a'' 5 6) 2 6)]) 0 9"

definition index_a_b :: node where
  "index_a_b =
     ExpressionStatement
       (MemberExpression True (Identifier ''a'' 0 1) (Identifier ''b'' 2 3) 0 4) 0 5"

text \<open>Two behaviours of the buffer's \<^verbatim>\<open>insert\<close> for the examples.\<close>

definition never_throws :: "buffer \<Rightarrow> nat \<Rightarrow> string \<Rightarrow> bool" where
  "never_throws b i t = False"


text \<open>\<^verbatim>\<open>function g(){ return exports + foo; }\<close>\<close>

definition function_g :: node where
  "function_g =
     FunctionDeclaration (Identifier ''g'' 9 10) []
       (BlockStatement
          [ReturnStatement
             (Node (plain ''BinaryExpression'' 21 34)
                [(''left'', Identifier ''exports'' 21 28), (''right'', Identifier ''foo'' 31 34)])
             14 35] 12 37)
       0 37"

text \<open>\<^verbatim>\<open>var x = 1;\<close> and \<^verbatim>\<open>var a = 1, b = 2;\<close>\<close>

definition var_x :: node where
  "var_x =
     VariableDeclaration ''var''
       [VariableDeclarator (Identifier ''x'' 4 5) [Literal 8 9] 4 9] 0 10"

definition var_a_b :: node where
  "var_a_b =
     VariableDeclaration ''var''
       [VariableDeclarator (Identifier ''a'' 4 5) [Literal 8 9] 4 9,
        VariableDeclarator (Identifier ''b'' 11 12) [Literal 15 16] 11 16] 0 17"




text \<open>\<^verbatim>\<open>analyse()\<close> followed by \<^verbatim>\<open>replaceIdentifiers\<close>, on a new statement.\<close>

definition analyse_then_replace ::
  "(buffer \<Rightarrow> nat \<Rightarrow> string \<Rightarrow> bool) \<Rightarrow> node \<Rightarrow> (string \<times> string) list \<Rightarrow> (string \<times> string) list
     \<Rightarrow> error + (statement \<times> buffer \<times> statement)" where
  "analyse_then_replace ins n nms be =
     (case analyse line_column (Statement n [] (plain_module [])) of
        Inl e \<Rightarrow> Inl e
      | Inr st \<Rightarrow>
          (case replaceIdentifiers ins st nms be of
             Inl e \<Rightarrow> Inl e
           | Inr (b, st') \<Rightarrow> Inr (st, b, st')))"

subsection \<open>Annotations added by a walk\<close>

text \<open>
  Two trees that differ at most in \<^verbatim>\<open>_skip\<close> annotations that the second has and the
  first has not.
\<close>

fun skip_added :: "node \<Rightarrow> node \<Rightarrow> bool"
  and skips_added :: "(string \<times> node) list \<Rightarrow> (string \<times> node) list \<Rightarrow> bool" where
  "skip_added (Node a cs) (Node a' cs') =
     ((a' = a \<or> a' = a\<lparr>skip_tag := True\<rparr>) \<and> skips_added cs cs')"
| "skips_added [] [] = True"
| "skips_added ((k, c) # cs) ((k', c') # cs') = (k = k' \<and> skip_added c c' \<and> skips_added cs cs')"
| "skips_added [] (x # xs) = False"
| "skips_added (x # xs) [] = False"

subsection \<open>Declarations that carry their names\<close>

text \<open>
  The precondition on a syntax tree under which the code's unguarded reads succeed:
  every function declaration and class declaration has an identifier with a name,
  and every variable declaration has at least one declarator, each with an
  identifier with a name.
\<close>

definition has_id :: "node \<Rightarrow> bool" where
  "has_id n = (case field (children n) ''id'' of None \<Rightarrow> False | Some i \<Rightarrow> name (attrs i) \<noteq> None)"

definition has_names :: "attrs \<Rightarrow> (string \<times> node) list \<Rightarrow> bool" where
  "has_names a cs =
     ((if ntype a = ''FunctionDeclaration'' \<or> ntype a = ''ClassDeclaration''
       then has_id (Node a cs) else True) \<and>
      (if ntype a = ''VariableDeclaration''
       then field_list cs ''declarations'' \<noteq> [] \<and> list_all has_id (field_list cs ''declarations'')
       else True))"

fun named :: "node \<Rightarrow> bool" and named_children :: "(string \<times> node) list \<Rightarrow> bool" where
  "named (Node a cs) = (has_names a cs \<and> named_children cs)"
| "named_children [] = True"
| "named_children ((k, c) # cs) = (named c \<and> named_children cs)"

text \<open>
  Two statements that depend on each other: the first defines \<^verbatim>\<open>a\<close> and reads \<^verbatim>\<open>b\<close>,
  the second defines \<^verbatim>\<open>b\<close>, reads \<^verbatim>\<open>a\<close> and modifies \<^verbatim>\<open>a\<close>.
\<close>

definition two_statements :: session where
  "two_statements =
     (let m = \<lparr>path = ''main.js'', source = [], imports_m = [],
               modifications = [(''a'', [1])], definitions = [(''a'', [0]), (''b'', [1])]\<rparr>
      in [(Statement (Literal 0 1) [] m)\<lparr>dependsOn := [''b''], defines_s := [''a'']\<rparr>,
          (Statement (Literal 2 3) [] m)\<lparr>dependsOn := [''a''], defines_s := [''b''], modifies := [''a'']\<rparr>])"

text \<open>
  Three statements: the first defines \<^verbatim>\<open>a\<close> and reads \<^verbatim>\<open>c\<close>, the second reads
  \<^verbatim>\<open>a\<close> and modifies it, the third defines \<^verbatim>\<open>c\<close>.
\<close>

definition three_statements :: session where
  "three_statements =
     (let m = \<lparr>path = ''main.js'', source = [], imports_m = [],
               modifications = [(''a'', [1])], definitions = [(''a'', [0]), (''c'', [2])]\<rparr>
      in [(Statement (Literal 0 1) [] m)\<lparr>dependsOn := [''c''], defines_s := [''a'']\<rparr>,
          (Statement (Literal 2 3) [] m)\<lparr>dependsOn := [''a''], modifies := [''a'']\<rparr>,
          (Statement (Literal 4 5) [] m)\<lparr>defines_s := [''c'']\<rparr>])"

subsection \<open>Top-level variable declarations\<close>










subsection \<open>Sessions that grow\<close>

text \<open>
  The number of statements not yet included, and the relation between a session,
  a list of statement references and a later session: the statements are the same
  but for \<^verbatim>\<open>isIncluded\<close>, no statement that was included is not included any more,
  and the list holds, once each, the statements that have become included.
\<close>

definition pending :: "session \<Rightarrow> nat" where
  "pending S = length (filter (\<lambda>s. \<not> isIncluded s) S)"

definition grows :: "session \<Rightarrow> nat list \<Rightarrow> session \<Rightarrow> bool" where
  "grows S r S' =
     (list_all2 (\<lambda>s s'. s' = s\<lparr>isIncluded := isIncluded s'\<rparr> \<and> (isIncluded s \<longrightarrow> isIncluded s')) S S' \<and>
      distinct r \<and>
      set r = {k. k < length S \<and> isIncluded (S' ! k) \<and> \<not> isIncluded (S ! k)})"

text \<open>
  The statement references that a table of a module (\<open>definitions\<close> or
  \<^verbatim>\<open>modifications\<close>) records for the names of a list, in the order of the names and,
  for each name, in recorded order.
\<close>

definition recorded :: "(string \<times> nat list) list \<Rightarrow> string list \<Rightarrow> nat list" where
  "recorded tbl nms = concat (map (\<lambda>nm. case map_of tbl nm of None \<Rightarrow> [] | Some ids \<Rightarrow> ids) nms)"

section \<open>Properties\<close>

subsection \<open>Write classification\<close>

lemma addNode_unrestricted:
  "unwrap t 0 = Inr (r, d) \<Longrightarrow>
   addNode gl st sc (Some t) False =
     Inr (if ntype (attrs r) = ''Identifier''
          then st\<lparr>modifies := set_true (name_key (name (attrs r))) (modifies st)\<rparr> else st)"
  by (simp add: addNode_def Let_def)

lemma addNode_restricted:
  "unwrap t 0 = Inr (r, d) \<Longrightarrow>
   addNode gl st (Some i) (Some t) True =
     (if (case map_of (imports_m (module st)) (name_key (name (attrs r))) of
            None \<Rightarrow> False
          | Some spec \<Rightarrow> \<not> contains (scopes st) i (name_key (name (attrs r))) \<and>
                         d < (if spec_name spec = ''*'' then 2 else 1))
      then Inl (IllegalReassignment (name_key (name (attrs r))) (path (module st))
                  (gl (source (module st)) (nstart (attrs r))))
      else Inr (if ntype (attrs r) = ''Identifier''
                then st\<lparr>modifies := set_true (name_key (name (attrs r))) (modifies st)\<rparr> else st))"
  by (simp add: addNode_def Let_def split: option.splits)

lemma unwrap_error: "unwrap t d = Inl e \<Longrightarrow> e = TypeError ''node.type''"
  by (induction t d rule: unwrap.induct) (auto split: if_splits option.splits)

lemma addNodes_no_reassignment_error:
  "addNodes gl st sc args \<noteq> Inl (IllegalReassignment nm f l)"
proof (induction args arbitrary: st)
  case Nil
  then show ?case by simp
next
  case (Cons a args)
  have "addNode gl st sc (Some a) False \<noteq> Inl (IllegalReassignment nm f l)"
    by (auto simp: addNode_def Let_def split: sum.splits prod.splits dest: unwrap_error)
  then show ?case using Cons.IH by (auto split: sum.splits)
qed

lemma addNodes_all:
  "\<forall>t \<in> set args. \<exists>r d. unwrap t 0 = Inr (r, d) \<Longrightarrow>
   addNodes gl st sc args =
     Inr (st\<lparr>modifies :=
            foldl (\<lambda>m t. case unwrap t 0 of
                            Inr (r, d) \<Rightarrow> if ntype (attrs r) = ''Identifier''
                                           then set_true (name_key (name (attrs r))) m else m
                          | Inl e \<Rightarrow> m)
              (modifies st) args\<rparr>)"
proof (induction args arbitrary: st)
  case Nil
  then show ?case by simp
next
  case (Cons a args)
  then obtain r d where u: "unwrap a 0 = Inr (r, d)" by auto
  show ?case using Cons u by (simp add: addNode_unrestricted)
qed

lemma unwrap_MemberExpression:
  "unwrap (MemberExpression c obj pr s e) k = unwrap obj (k + 1)"
  by (simp add: MemberExpression_def plain_def)

lemma unwrap_other: "ntype (attrs t) \<noteq> ''MemberExpression'' \<Longrightarrow> unwrap t k = Inr (t, k)"
  by (cases t) simp

text \<open>
  Claim C3. During \<^verbatim>\<open>analyse()\<close> a name that is read enters \<^verbatim>\<open>dependsOn\<close> only if
  it resolves to no scope or to a scope of depth 0 and is not a name that the statement
  itself defines; for \<^verbatim>\<open>export function a(){ return b(); }\<close> the result is to be
  \<^verbatim>\<open>dependsOn = {b}\<close> and \<^verbatim>\<open>defines = {a}\<close>. The code reads \<^verbatim>\<open>this.defines\<close> in
  the read check but fills it only after both walks, so the statement's own name is
  entered as well: the result for this statement is \<^verbatim>\<open>dependsOn = {a, b}\<close>.
\<close>

theorem analyse_own_name_is_dependency:
  "map_sum id dependsOn
     (analyse line_column
        (Statement export_function_a [] (plain_module ''export function a(){ return b(); }''))) =
     Inr [''a'', ''b''] \<and>
   map_sum id defines_s
     (analyse line_column
        (Statement export_function_a [] (plain_module ''export function a(){ return b(); }''))) =
     Inr [''a'']"
  by code_simp

text \<open>
  Claim C4. An assignment or an increment/decrement whose target unwraps to an
  imported binding that no local scope shadows raises the illegal-reassignment
  error exactly when the number of unwrapped member accesses is below the minimum, 1
  for a named import and 2 for a namespace import. The error carries the module's
  path and the location computed from the module's text and the start of the root
  identifier, and it leaves \<^verbatim>\<open>analyse()\<close>: with an import of \<^verbatim>\<open>x\<close>, \<^verbatim>\<open>x = 5\<close> raises
  it and \<^verbatim>\<open>x.prop = 5\<close> does not.
\<close>

theorem illegal_reassignment:
  assumes target:
      "ntype (attrs n) = ''AssignmentExpression'' \<and> field (children n) ''left'' = Some t \<or>
       ntype (attrs n) = ''UpdateExpression'' \<and> field (children n) ''argument'' = Some t"
    and root: "unwrap t 0 = Inr (r, d)"
    and imported: "map_of (imports_m (module st)) (name_key (name (attrs r))) = Some spec"
    and unshadowed: "\<not> contains (scopes st) i (name_key (name (attrs r)))"
  shows "(isl (checkForWrites getLocation st (Some i) n) \<longleftrightarrow>
            d < (if spec_name spec = ''*'' then 2 else 1)) \<and>
         (d < (if spec_name spec = ''*'' then 2 else 1) \<longrightarrow>
            checkForWrites getLocation st (Some i) n =
              Inl (IllegalReassignment (name_key (name (attrs r))) (path (module st))
                     (getLocation (source (module st)) (nstart (attrs r))))) \<and>
         analyse getLocation (Statement assign_x [] (importing_module ''x = 5;'')) =
           Inl (IllegalReassignment ''x'' ''main.js'' (getLocation ''x = 5;'' 0)) \<and>
         \<not> isl (analyse getLocation (Statement assign_x_prop [] (importing_module ''x.prop = 5;''))) \<and>
         analyse getLocation (Statement assign_ns_foo [] (importing_module ''ns.foo = 5;'')) =
           Inl (IllegalReassignment ''ns'' ''main.js'' (getLocation ''ns.foo = 5;'' 0))"
proof -
  have w: "checkForWrites getLocation st (Some i) n = addNode getLocation st (Some i) (Some t) True"
    using target by (auto simp: checkForWrites_def)
  have general:
    "checkForWrites getLocation st (Some i) n =
       (if d < (if spec_name spec = ''*'' then 2 else 1)
        then Inl (IllegalReassignment (name_key (name (attrs r))) (path (module st))
                    (getLocation (source (module st)) (nstart (attrs r))))
        else Inr (if ntype (attrs r) = ''Identifier''
                  then st\<lparr>modifies := set_true (name_key (name (attrs r))) (modifies st)\<rparr> else st))"
    unfolding w using imported unshadowed by (simp add: addNode_restricted [OF root])
  have e1: "analyse getLocation (Statement assign_x [] (importing_module ''x = 5;'')) =
           Inl (IllegalReassignment ''x'' ''main.js'' (getLocation ''x = 5;'' 0))"
    by code_simp
  have e2: "\<not> isl (analyse getLocation (Statement assign_x_prop [] (importing_module ''x.prop = 5;'')))"
    by code_simp
  have e3: "analyse getLocation (Statement assign_ns_foo [] (importing_module ''ns.foo = 5;'')) =
           Inl (IllegalReassignment ''ns'' ''main.js'' (getLocation ''ns.foo = 5;'' 0))"
    by code_simp
  show ?thesis using general e1 e2 e3 by simp
qed

theorem illegal_reassignment_witness:
  "checkForWrites line_column (Statement assign_x [] (importing_module ''x = 5;'')) (Some 0)
     (AssignmentExpression (Identifier ''x'' 0 1) (Literal 4 5) 0 5) =
   Inl (IllegalReassignment ''x'' ''main.js'' (1, 0)) \<and>
   \<not> isl (checkForWrites line_column (Statement assign_x_prop [] (importing_module ''x.prop = 5;'')) (Some 0)
     (AssignmentExpression (MemberExpression False (Identifier ''x'' 0 1) (Identifier ''prop'' 2 6) 0 6)
          (Literal 9 10) 0 10))"
proof -
  let ?st = "Statement assign_x [] (importing_module ''x = 5;'')"
  let ?n = "AssignmentExpression (Identifier ''x'' 0 1) (Literal 4 5) 0 5"
  have h1: "ntype (attrs ?n) = ''AssignmentExpression'' \<and> field (children ?n) ''left'' = Some (Identifier ''x'' 0 1) \<or>
       ntype (attrs ?n) = ''UpdateExpression'' \<and> field (children ?n) ''argument'' = Some (Identifier ''x'' 0 1)"
    by code_simp
  have h2: "unwrap (Identifier ''x'' 0 1) 0 = Inr (Identifier ''x'' 0 1, 0)" by code_simp
  have h3: "map_of (imports_m (module ?st)) (name_key (name (attrs (Identifier ''x'' 0 1)))) = Some \<lparr>spec_name = ''x''\<rparr>"
    by code_simp
  have h4: "\<not> contains (scopes ?st) 0 (name_key (name (attrs (Identifier ''x'' 0 1))))" by code_simp
  let ?st' = "Statement assign_x_prop [] (importing_module ''x.prop = 5;'')"
  let ?t' = "MemberExpression False (Identifier ''x'' 0 1) (Identifier ''prop'' 2 6) 0 6"
  let ?n' = "AssignmentExpression ?t' (Literal 9 10) 0 10"
  have g1: "ntype (attrs ?n') = ''AssignmentExpression'' \<and> field (children ?n') ''left'' = Some ?t' \<or>
       ntype (attrs ?n') = ''UpdateExpression'' \<and> field (children ?n') ''argument'' = Some ?t'"
    by code_simp
  have g2: "unwrap ?t' 0 = Inr (Identifier ''x'' 0 1, 1)" by code_simp
  have g3: "map_of (imports_m (module ?st')) (name_key (name (attrs (Identifier ''x'' 0 1)))) = Some \<lparr>spec_name = ''x''\<rparr>"
    by code_simp
  have g4: "\<not> contains (scopes ?st') 0 (name_key (name (attrs (Identifier ''x'' 0 1))))" by code_simp
  show ?thesis
    using illegal_reassignment [OF h1 h2 h3 h4, of line_column]
          illegal_reassignment [OF g1 g2 g3 g4, of line_column]
    by (simp add: Identifier_def plain_def name_key_def line_column_def Statement_def importing_module_def)
qed

text \<open>
  Claim C5. An identifier counts as a read unless it is the non-computed property
  side of a member access or the key side of an object property; the index of a
  computed member access \<^verbatim>\<open>a[b]\<close> is to count as a read. The read check of the code
  does not look at \<^verbatim>\<open>computed\<close> (the rewriting walk does): for \<^verbatim>\<open>a[b]\<close>, as for
  \<^verbatim>\<open>a.b = 1\<close> and \<^verbatim>\<open>{b: a}\<close>, only \<^verbatim>\<open>a\<close> enters \<^verbatim>\<open>dependsOn\<close>.
\<close>

theorem computed_index_is_no_read:
  "map_sum id dependsOn (analyse line_column (Statement index_a_b [] (plain_module ''a[b];''))) =
     Inr [''a''] \<and>
   map_sum id dependsOn (analyse line_column (Statement assign_a_b [] (plain_module ''a.b = 1;''))) =
     Inr [''a''] \<and>
   map_sum id dependsOn (analyse line_column (Statement object_b_a [] (plain_module ''({b: a});''))) =
     Inr [''a'']"
  by code_simp

text \<open>
  Claim C6, as stated, fails: a call argument that is a bare imported binding without
  local shadow is recorded in \<^verbatim>\<open>modifies\<close> and raises nothing, where the same target
  of an assignment raises the error.
\<close>

theorem call_argument_unchecked_counterexample:
  "map_sum id modifies (analyse line_column (Statement call_f_x [] (importing_module ''f(x);''))) =
     Inr [''x''] \<and>
   analyse line_column (Statement assign_x [] (importing_module ''x = 5;'')) =
     Inl (IllegalReassignment ''x'' ''main.js'' (1, 0))"
  by code_simp

text \<open>
  Claim C6, amended. The write check applies to the left side of an assignment, the
  operand of an increment/decrement and every argument of a call, and to no other
  node. The root of a target is found by unwrapping its chain of member accesses and
  is recorded in \<^verbatim>\<open>modifies\<close> when it is an identifier. The minimum-depth restriction
  on imports applies to the targets of assignments and of increments/decrements only:
  a call never raises the illegal-reassignment error, and when its arguments unwrap
  it records the root identifier of each.
\<close>

theorem write_check_targets:
  "(ntype (attrs n) \<noteq> ''AssignmentExpression'' \<and> ntype (attrs n) \<noteq> ''UpdateExpression'' \<and>
    ntype (attrs n) \<noteq> ''CallExpression'' \<longrightarrow> checkForWrites gl st sc n = Inr st) \<and>
   ((ntype (attrs n) = ''AssignmentExpression'' \<and> field (children n) ''left'' = Some t \<or>
     ntype (attrs n) = ''UpdateExpression'' \<and> field (children n) ''argument'' = Some t) \<and>
    unwrap t 0 = Inr (r, d) \<longrightarrow>
      checkForWrites gl st (Some i) n =
        (if (case map_of (imports_m (module st)) (name_key (name (attrs r))) of
               None \<Rightarrow> False
             | Some spec \<Rightarrow> \<not> contains (scopes st) i (name_key (name (attrs r))) \<and>
                            d < (if spec_name spec = ''*'' then 2 else 1))
         then Inl (IllegalReassignment (name_key (name (attrs r))) (path (module st))
                     (gl (source (module st)) (nstart (attrs r))))
         else Inr (if ntype (attrs r) = ''Identifier''
                   then st\<lparr>modifies := set_true (name_key (name (attrs r))) (modifies st)\<rparr>
                   else st))) \<and>
   (ntype (attrs n) = ''CallExpression'' \<longrightarrow>
      (\<forall>nm f l. checkForWrites gl st sc n \<noteq> Inl (IllegalReassignment nm f l))) \<and>
   (ntype (attrs n) = ''CallExpression'' \<and>
    (\<forall>a \<in> set (field_list (children n) ''arguments''). \<not> isl (unwrap a 0)) \<longrightarrow>
      checkForWrites gl st sc n =
        Inr (st\<lparr>modifies :=
               foldl (\<lambda>m a. case unwrap a 0 of
                               Inr (r, d) \<Rightarrow> if ntype (attrs r) = ''Identifier''
                                              then set_true (name_key (name (attrs r))) m else m
                             | Inl e \<Rightarrow> m)
                 (modifies st) (field_list (children n) ''arguments'')\<rparr>)) \<and>
   unwrap (MemberExpression c obj pr s e) k = unwrap obj (k + 1) \<and>
   (ntype (attrs t') \<noteq> ''MemberExpression'' \<longrightarrow> unwrap t' k = Inr (t', k))"
proof -
  have other: "ntype (attrs n) \<noteq> ''AssignmentExpression'' \<and> ntype (attrs n) \<noteq> ''UpdateExpression'' \<and>
    ntype (attrs n) \<noteq> ''CallExpression'' \<longrightarrow> checkForWrites gl st sc n = Inr st"
    by (simp add: checkForWrites_def)
  have target: "(ntype (attrs n) = ''AssignmentExpression'' \<and> field (children n) ''left'' = Some t \<or>
     ntype (attrs n) = ''UpdateExpression'' \<and> field (children n) ''argument'' = Some t) \<and>
    unwrap t 0 = Inr (r, d) \<longrightarrow>
      checkForWrites gl st (Some i) n =
        (if (case map_of (imports_m (module st)) (name_key (name (attrs r))) of
               None \<Rightarrow> False
             | Some spec \<Rightarrow> \<not> contains (scopes st) i (name_key (name (attrs r))) \<and>
                            d < (if spec_name spec = ''*'' then 2 else 1))
         then Inl (IllegalReassignment (name_key (name (attrs r))) (path (module st))
                     (gl (source (module st)) (nstart (attrs r))))
         else Inr (if ntype (attrs r) = ''Identifier''
                   then st\<lparr>modifies := set_true (name_key (name (attrs r))) (modifies st)\<rparr>
                   else st))"
  proof
    assume a: "(ntype (attrs n) = ''AssignmentExpression'' \<and> field (children n) ''left'' = Some t \<or>
     ntype (attrs n) = ''UpdateExpression'' \<and> field (children n) ''argument'' = Some t) \<and>
    unwrap t 0 = Inr (r, d)"
    then have "checkForWrites gl st (Some i) n = addNode gl st (Some i) (Some t) True"
      by (auto simp: checkForWrites_def)
    then show "checkForWrites gl st (Some i) n =
        (if (case map_of (imports_m (module st)) (name_key (name (attrs r))) of
               None \<Rightarrow> False
             | Some spec \<Rightarrow> \<not> contains (scopes st) i (name_key (name (attrs r))) \<and>
                            d < (if spec_name spec = ''*'' then 2 else 1))
         then Inl (IllegalReassignment (name_key (name (attrs r))) (path (module st))
                     (gl (source (module st)) (nstart (attrs r))))
         else Inr (if ntype (attrs r) = ''Identifier''
                   then st\<lparr>modifies := set_true (name_key (name (attrs r))) (modifies st)\<rparr>
                   else st))"
      using a addNode_restricted [of t r d gl st i] by simp
  qed
  have call1: "ntype (attrs n) = ''CallExpression'' \<longrightarrow>
      (\<forall>nm f l. checkForWrites gl st sc n \<noteq> Inl (IllegalReassignment nm f l))"
    by (simp add: checkForWrites_def addNodes_no_reassignment_error)
  have call2: "ntype (attrs n) = ''CallExpression'' \<and>
    (\<forall>a \<in> set (field_list (children n) ''arguments''). \<not> isl (unwrap a 0)) \<longrightarrow>
      checkForWrites gl st sc n =
        Inr (st\<lparr>modifies :=
               foldl (\<lambda>m a. case unwrap a 0 of
                               Inr (r, d) \<Rightarrow> if ntype (attrs r) = ''Identifier''
                                              then set_true (name_key (name (attrs r))) m else m
                             | Inl e \<Rightarrow> m)
                 (modifies st) (field_list (children n) ''arguments'')\<rparr>)"
  proof
    assume a: "ntype (attrs n) = ''CallExpression'' \<and>
      (\<forall>a \<in> set (field_list (children n) ''arguments''). \<not> isl (unwrap a 0))"
    then have "\<forall>t \<in> set (field_list (children n) ''arguments''). \<exists>r d. unwrap t 0 = Inr (r, d)"
      by (metis old.prod.exhaust sum.collapse(2))
    then show "checkForWrites gl st sc n =
        Inr (st\<lparr>modifies :=
               foldl (\<lambda>m a. case unwrap a 0 of
                               Inr (r, d) \<Rightarrow> if ntype (attrs r) = ''Identifier''
                                              then set_true (name_key (name (attrs r))) m else m
                             | Inl e \<Rightarrow> m)
                 (modifies st) (field_list (children n) ''arguments'')\<rparr>)"
      using a by (simp add: checkForWrites_def addNodes_all)
  qed
  show ?thesis
    using other target call1 call2 unwrap_MemberExpression [of c obj pr s e k] unwrap_other [of t' k]
    by blast
qed

theorem write_check_targets_witness:
  "checkForWrites line_column (Statement call_f_x [] (importing_module ''f(x);'')) (Some 0)
      (CallExpression (Identifier ''f'' 0 1) [Identifier ''x'' 2 3] 0 4) =
     Inr ((Statement call_f_x [] (importing_module ''f(x);''))\<lparr>modifies := [''x'']\<rparr>) \<and>
   checkForWrites line_column (Statement assign_x [] (importing_module ''x = 5;'')) (Some 0)
      (AssignmentExpression (Identifier ''x'' 0 1) (Literal 4 5) 0 5) =
     Inl (IllegalReassignment ''x'' ''main.js'' (1, 0)) \<and>
   checkForWrites line_column (Statement assign_x [] (importing_module ''x = 5;'')) (Some 0)
      (Literal 4 5) = Inr (Statement assign_x [] (importing_module ''x = 5;''))"
proof -
  let ?call = "CallExpression (Identifier ''f'' 0 1) [Identifier ''x'' 2 3] 0 4"
  let ?asg = "AssignmentExpression (Identifier ''x'' 0 1) (Literal 4 5) 0 5"
  let ?stc = "Statement call_f_x [] (importing_module ''f(x);'')"
  let ?sta = "Statement assign_x [] (importing_module ''x = 5;'')"
  have c: "ntype (attrs ?call) = ''CallExpression'' \<and>
      (\<forall>a \<in> set (field_list (children ?call) ''arguments''). \<not> isl (unwrap a 0))"
    by (simp add: CallExpression_def plain_def field_list_def Identifier_def)
  have a: "(ntype (attrs ?asg) = ''AssignmentExpression'' \<and> field (children ?asg) ''left'' = Some (Identifier ''x'' 0 1) \<or>
     ntype (attrs ?asg) = ''UpdateExpression'' \<and> field (children ?asg) ''argument'' = Some (Identifier ''x'' 0 1)) \<and>
    unwrap (Identifier ''x'' 0 1) 0 = Inr (Identifier ''x'' 0 1, 0)"
    by (simp add: AssignmentExpression_def plain_def Identifier_def)
  have l: "ntype (attrs (Literal 4 5)) \<noteq> ''AssignmentExpression'' \<and> ntype (attrs (Literal 4 5)) \<noteq> ''UpdateExpression'' \<and>
    ntype (attrs (Literal 4 5)) \<noteq> ''CallExpression''"
    by (simp add: Literal_def plain_def)
  have r1: "checkForWrites line_column ?stc (Some 0) ?call = Inr (?stc\<lparr>modifies :=
               foldl (\<lambda>m a. case unwrap a 0 of
                               Inr (r, d) \<Rightarrow> if ntype (attrs r) = ''Identifier''
                                              then set_true (name_key (name (attrs r))) m else m
                             | Inl e \<Rightarrow> m)
                 (modifies ?stc) (field_list (children ?call) ''arguments'')\<rparr>)"
    using write_check_targets [of ?call line_column ?stc "Some 0"] c by blast
  have r2: "checkForWrites line_column ?sta (Some 0) ?asg =
        (if (case map_of (imports_m (module ?sta)) (name_key (name (attrs (Identifier ''x'' 0 1)))) of
               None \<Rightarrow> False
             | Some spec \<Rightarrow> \<not> contains (scopes ?sta) 0 (name_key (name (attrs (Identifier ''x'' 0 1)))) \<and>
                            0 < (if spec_name spec = ''*'' then 2 else (1::nat)))
         then Inl (IllegalReassignment (name_key (name (attrs (Identifier ''x'' 0 1)))) (path (module ?sta))
                     (line_column (source (module ?sta)) (nstart (attrs (Identifier ''x'' 0 1)))))
         else Inr (if ntype (attrs (Identifier ''x'' 0 1)) = ''Identifier''
                   then ?sta\<lparr>modifies := set_true (name_key (name (attrs (Identifier ''x'' 0 1)))) (modifies ?sta)\<rparr>
                   else ?sta))"
    using write_check_targets [of ?asg line_column ?sta "Some 0" "Identifier ''x'' 0 1" "Identifier ''x'' 0 1" 0 0] a
    by blast
  have r3: "checkForWrites line_column ?sta (Some 0) (Literal 4 5) = Inr ?sta"
    using write_check_targets [of "Literal 4 5" line_column ?sta "Some 0"] l by blast
  have v1: "Inr (?stc\<lparr>modifies :=
               foldl (\<lambda>m a. case unwrap a 0 of
                               Inr (r, d) \<Rightarrow> if ntype (attrs r) = ''Identifier''
                                              then set_true (name_key (name (attrs r))) m else m
                             | Inl e \<Rightarrow> m)
                 (modifies ?stc) (field_list (children ?call) ''arguments'')\<rparr>) = (Inr (?stc\<lparr>modifies := [''x'']\<rparr>) :: error + statement)"
    by code_simp
  have v2: "(if (case map_of (imports_m (module ?sta)) (name_key (name (attrs (Identifier ''x'' 0 1)))) of
               None \<Rightarrow> False
             | Some spec \<Rightarrow> \<not> contains (scopes ?sta) 0 (name_key (name (attrs (Identifier ''x'' 0 1)))) \<and>
                            0 < (if spec_name spec = ''*'' then 2 else (1::nat)))
         then Inl (IllegalReassignment (name_key (name (attrs (Identifier ''x'' 0 1)))) (path (module ?sta))
                     (line_column (source (module ?sta)) (nstart (attrs (Identifier ''x'' 0 1)))))
         else Inr (if ntype (attrs (Identifier ''x'' 0 1)) = ''Identifier''
                   then ?sta\<lparr>modifies := set_true (name_key (name (attrs (Identifier ''x'' 0 1)))) (modifies ?sta)\<rparr>
                   else ?sta)) = Inl (IllegalReassignment ''x'' ''main.js'' (1, 0))"
    by code_simp
  show ?thesis
    using r1 r2 r3 unfolding v1 v2 by blast
qed

subsection \<open>Identifier rewriting\<close>


lemma rewrite_identifier_buf:
  "rewrite_identifier r par n = Inr r' \<Longrightarrow> \<exists>es. buf r' = buf r @ es"
  by (auto simp: rewrite_identifier_def split: if_splits option.splits prod.splits)

lemma export_rewrite_buf:
  "export_rewrite c b n = Inr (b', m) \<Longrightarrow> \<exists>es. b' = b @ es"
  by (auto simp: export_rewrite_def Let_def split: if_splits option.splits list.splits sum.splits)

lemma enterR_buf:
  assumes "enterR c r par n = Inr (skip, r', m)"
  shows "\<exists>es. buf r' = buf r @ es"
proof (cases "skip_tag (attrs n)")
  case True
  then show ?thesis using assms by (simp add: enterR_def)
next
  case False
  obtain b mk where e: "(if topLevel r \<and> ntype (attrs n) = ''VariableDeclaration''
               then export_rewrite c (buf r) n else Inr (buf r, False)) = Inr (b, mk)"
    using assms False by (auto simp: enterR_def split: sum.splits)
  then obtain es where b: "b = buf r @ es"
    using export_rewrite_buf by (fastforce split: if_splits)
  show ?thesis
  proof (cases "scope_tag (attrs n)")
    case None
    then obtain r2 where "rewrite_identifier (r\<lparr>buf := b\<rparr>) par n = Inr r2" "r' = r2"
      using assms False e by (auto simp: enterR_def Let_def split: sum.splits)
    then show ?thesis using rewrite_identifier_buf [of "r\<lparr>buf := b\<rparr>" par n r2] b by auto
  next
    case (Some s)
    then show ?thesis
      using assms False e b
      by (auto simp: enterR_def Let_def split: sum.splits option.splits if_splits
               dest!: rewrite_identifier_buf)
  qed
qed

lemma leaveR_buf: "buf (leaveR r a) = buf r"
  by (simp add: leaveR_def Let_def)

lemma walkR_buf:
  "walkR c r par n = Inr (r', n') \<Longrightarrow> \<exists>es. buf r' = buf r @ es"
  "walkR_children c r pa cs = Inr (r', cs') \<Longrightarrow> \<exists>es. buf r' = buf r @ es"
proof (induction c r par n and c r pa cs arbitrary: r' n' and r' cs' rule: walkR_walkR_children.induct)
  case (1 c r par a cs)
  from "1.prems" obtain skip r1 marked where e: "enterR c r par (Node a cs) = Inr (skip, r1, marked)"
    by (auto split: sum.splits)
  then obtain es1 where b1: "buf r1 = buf r @ es1" using enterR_buf by blast
  show ?case
  proof (cases skip)
    case True
    then show ?thesis using "1.prems" e b1 by auto
  next
    case False
    then obtain r2 cs2 where w: "walkR_children c r1 a (if marked then mark_skip cs else cs) = Inr (r2, cs2)"
      and r': "r' = leaveR r2 a"
      using "1.prems" e by (auto split: sum.splits)
    from "1.IH" [OF e refl refl False w] obtain es2 where "buf r2 = buf r1 @ es2" by auto
    then show ?thesis using b1 r' by (simp add: leaveR_buf)
  qed
next
  case (2 c r pa)
  then show ?case by simp
next
  case (3 c r pa k ch cs)
  from "3.prems" obtain r1 ch1 where w1: "walkR c r (Some (pa, k)) ch = Inr (r1, ch1)"
    by (auto split: sum.splits)
  then obtain r2 cs2 where w2: "walkR_children c r1 pa cs = Inr (r2, cs2)" and r': "r' = r2"
    using "3.prems" by (auto split: sum.splits)
  from "3.IH"(1) [OF w1] obtain es1 where "buf r1 = buf r @ es1" by auto
  moreover from "3.IH"(2) [OF w1 refl w2] obtain es2 where "buf r2 = buf r1 @ es2" by auto
  ultimately show ?case using r' by simp
qed

lemma skip_added_refl: "skip_added n n" "skips_added cs cs"
  by (induction n and cs rule: weight_weights.induct) auto

lemma skip_added_trans:
  "skip_added n n' \<Longrightarrow> skip_added n' n'' \<Longrightarrow> skip_added n n''"
  "skips_added cs cs' \<Longrightarrow> skips_added cs' cs'' \<Longrightarrow> skips_added cs cs''"
proof (induction n n' and cs cs' arbitrary: n'' and cs'' rule: skip_added_skips_added.induct)
  case (1 a cs a' cs')
  then show ?case by (cases n'') auto
next
  case 2
  then show ?case by simp
next
  case (3 k c cs k' c' cs')
  then show ?case by (cases cs'') auto
qed auto

lemma skip_added_set_skip: "skip_added n (set_skip n)"
  by (cases n) (simp add: skip_added_refl)

lemma skips_added_update_field:
  "(\<And>n. skip_added n (f n)) \<Longrightarrow> skips_added cs (update_field k f cs)"
  by (induction cs) (auto simp: skip_added_refl)

lemma skip_added_set_skip_id: "skip_added n (set_skip_id n)"
  by (cases n) (simp add: skips_added_update_field skip_added_set_skip)

lemma skips_added_mark_skip: "skips_added cs (mark_skip cs)"
  by (simp add: mark_skip_def skips_added_update_field skip_added_set_skip_id)

lemma walkR_skip_added:
  "walkR c r par n = Inr (r', n') \<Longrightarrow> skip_added n n'"
  "walkR_children c r pa cs = Inr (r', cs') \<Longrightarrow> skips_added cs cs'"
proof (induction c r par n and c r pa cs arbitrary: r' n' and r' cs' rule: walkR_walkR_children.induct)
  case (1 c r par a cs)
  from "1.prems" obtain skip r1 marked where e: "enterR c r par (Node a cs) = Inr (skip, r1, marked)"
    by (auto split: sum.splits)
  have m: "skips_added cs (if marked then mark_skip cs else cs)"
    by (simp add: skips_added_mark_skip skip_added_refl)
  show ?case
  proof (cases skip)
    case True
    then show ?thesis using "1.prems" e m by auto
  next
    case False
    then obtain r2 cs2 where w: "walkR_children c r1 a (if marked then mark_skip cs else cs) = Inr (r2, cs2)"
      and n': "n' = Node a cs2"
      using "1.prems" e by (auto split: sum.splits)
    from "1.IH" [OF e refl refl False w] have "skips_added (if marked then mark_skip cs else cs) cs2" .
    then have "skips_added cs cs2" using m skip_added_trans(2) by blast
    then show ?thesis using n' by simp
  qed
next
  case (2 c r pa)
  then show ?case by simp
next
  case (3 c r pa k ch cs)
  from "3.prems" obtain r1 ch1 where w1: "walkR c r (Some (pa, k)) ch = Inr (r1, ch1)"
    by (auto split: sum.splits)
  then obtain r2 cs2 where w2: "walkR_children c r1 pa cs = Inr (r2, cs2)" and c': "cs' = (k, ch1) # cs2"
    using "3.prems" by (auto split: sum.splits)
  show ?case using "3.IH"(1) [OF w1] "3.IH"(2) [OF w1 refl w2] c' by simp
qed

lemma skip_added_attrs:
  "skip_added n n' \<Longrightarrow>
     ntype (attrs n') = ntype (attrs n) \<and> nstart (attrs n') = nstart (attrs n) \<and>
     nend (attrs n') = nend (attrs n) \<and> name (attrs n') = name (attrs n) \<and>
     computed (attrs n') = computed (attrs n) \<and> kind (attrs n') = kind (attrs n) \<and>
     scope_tag (attrs n') = scope_tag (attrs n) \<and> skips_added (children n) (children n')"
  by (cases n; cases n') auto

lemma skips_added_field:
  "skips_added cs cs' \<Longrightarrow> rel_option skip_added (field cs k) (field cs' k)"
proof (induction cs arbitrary: cs')
  case Nil
  then show ?case by (cases cs') auto
next
  case (Cons x cs)
  then show ?case by (cases cs'; cases x) auto
qed

lemma skips_added_field_list:
  "skips_added cs cs' \<Longrightarrow> list_all2 skip_added (field_list cs k) (field_list cs' k)"
proof (induction cs arbitrary: cs')
  case Nil
  then show ?case by (cases cs') (auto simp: field_list_def)
next
  case (Cons x cs)
  then show ?case by (cases cs'; cases x) (auto simp: field_list_def)
qed

lemma declarator_names_skip_added:
  "list_all2 skip_added ds ds' \<Longrightarrow> declarator_names ds' = declarator_names ds"
proof (induction ds ds' rule: list_all2_induct)
  case Nil
  then show ?case by simp
next
  case (Cons d ds d' ds')
  have "rel_option skip_added (field (children d) ''id'') (field (children d') ''id'')"
    using Cons.hyps(1) skip_added_attrs skips_added_field by blast
  then show ?case using Cons.IH
    by (cases "field (children d) ''id''"; cases "field (children d') ''id''")
       (auto dest!: skip_added_attrs split: sum.splits)
qed

lemma export_rewrite_skip_added:
  assumes "skips_added cs cs'"
  shows "export_rewrite c b (Node a cs') = export_rewrite c b (Node a cs)"
proof -
  have l: "list_all2 skip_added (field_list cs ''declarations'') (field_list cs' ''declarations'')"
    using assms by (rule skips_added_field_list)
  show ?thesis
  proof (cases "field_list cs ''declarations''")
    case Nil
    then have "field_list cs' ''declarations'' = []" using l by simp
    then show ?thesis using Nil by (simp add: export_rewrite_def)
  next
    case (Cons d ds)
    then obtain d' ds' where c': "field_list cs' ''declarations'' = d' # ds'"
      and d: "skip_added d d'" and ds: "list_all2 skip_added ds ds'"
      using l by (auto simp: list_all2_Cons1)
    have len: "length ds' = length ds" using ds by (simp add: list_all2_lengthD)
    have names: "declarator_names (d' # ds') = declarator_names (d # ds)"
      using declarator_names_skip_added [of "d # ds" "d' # ds'"] d ds by simp
    have idr: "rel_option skip_added (field (children d) ''id'') (field (children d') ''id'')"
      using d skip_added_attrs skips_added_field by blast
    show ?thesis
    proof (cases "field (children d) ''id''")
      case None
      then have "field (children d') ''id'' = None" using idr by (cases "field (children d') ''id''") auto
      then show ?thesis using None Cons c' by (simp add: export_rewrite_def)
    next
      case (Some i)
      then obtain i' where i': "field (children d') ''id'' = Some i'" and ii: "skip_added i i'"
        using idr by (cases "field (children d') ''id''") auto
      have "name (attrs i') = name (attrs i)" "nend (attrs i') = nend (attrs i)"
        using ii skip_added_attrs by blast+
      then show ?thesis
        unfolding export_rewrite_def Let_def using Some i' Cons c' names len
        by (simp del: declarator_names.simps split: sum.splits)
    qed
  qed
qed

lemma rewrite_identifier_children:
  "rewrite_identifier r par (Node a cs') = rewrite_identifier r par (Node a cs)"
  by (auto simp: rewrite_identifier_def split: option.splits)

lemma enterR_skip_added:
  assumes "skips_added cs cs'"
  shows "enterR c r par (Node a cs') = enterR c r par (Node a cs)"
  unfolding enterR_def Let_def
  by (auto simp: export_rewrite_skip_added [OF assms] rewrite_identifier_children [of _ par a cs' cs]
           split: sum.splits option.splits)

lemma update_field_fixed:
  "(\<And>n n'. skip_added (f n) n' \<Longrightarrow> f n' = n') \<Longrightarrow>
   skips_added (update_field k f cs) cs' \<Longrightarrow> update_field k f cs' = cs'"
proof (induction cs arbitrary: cs')
  case Nil
  then show ?case by (cases cs') auto
next
  case (Cons x cs)
  obtain k0 ch where x: "x = (k0, ch)" by (cases x)
  from Cons.prems(2) obtain k1 ch' cs1 where c': "cs' = (k1, ch') # cs1"
    by (cases cs') (auto simp: x split: if_splits)
  show ?case
  proof (cases "k0 = k")
    case True
    then have "k1 = k" "skip_added (f ch) ch'" using Cons.prems(2) x c' by auto
    then show ?thesis using Cons.prems(1) c' by simp
  next
    case False
    then have "k1 = k0" "skips_added (update_field k f cs) cs1" using Cons.prems(2) x c' by auto
    then show ?thesis using Cons.IH [OF Cons.prems(1)] False c' by simp
  qed
qed

lemma set_skip_fixed: "skip_added (set_skip n) n' \<Longrightarrow> set_skip n' = n'"
  by (cases n; cases n') auto

lemma set_skip_id_fixed: "skip_added (set_skip_id n) n' \<Longrightarrow> set_skip_id n' = n'"
  by (cases n; cases n') (auto simp: update_field_fixed [OF set_skip_fixed])

lemma mark_skip_fixed: "skips_added (mark_skip cs) cs' \<Longrightarrow> mark_skip cs' = cs'"
  unfolding mark_skip_def by (rule update_field_fixed [OF set_skip_id_fixed])

lemma walkR_again:
  "walkR c r par n = Inr (r', n') \<Longrightarrow> walkR c r par n' = Inr (r', n')"
  "walkR_children c r pa cs = Inr (r', cs') \<Longrightarrow> walkR_children c r pa cs' = Inr (r', cs')"
proof (induction c r par n and c r pa cs arbitrary: r' n' and r' cs' rule: walkR_walkR_children.induct)
  case (1 c r par a cs)
  from "1.prems" obtain skip r1 marked where e: "enterR c r par (Node a cs) = Inr (skip, r1, marked)"
    by (auto split: sum.splits)
  let ?cs1 = "if marked then mark_skip cs else cs"
  have m: "skips_added cs ?cs1"
    by (simp add: skips_added_mark_skip skip_added_refl)
  show ?case
  proof (cases skip)
    case True
    then have n': "n' = Node a ?cs1" and r': "r' = r1" using "1.prems" e by auto
    have e': "enterR c r par (Node a ?cs1) = Inr (True, r1, marked)"
      using enterR_skip_added [OF m] e True by simp
    have fixed: "(if marked then mark_skip ?cs1 else ?cs1) = ?cs1"
      using mark_skip_fixed [OF skip_added_refl(2)] by simp
    show ?thesis unfolding n' r' walkR.simps e' using fixed by simp
  next
    case False
    then obtain r2 cs2 where w: "walkR_children c r1 a ?cs1 = Inr (r2, cs2)"
      and n': "n' = Node a cs2" and r': "r' = leaveR r2 a"
      using "1.prems" e by (auto split: sum.splits)
    have a12: "skips_added ?cs1 cs2" using walkR_skip_added(2) [OF w] .
    then have a2: "skips_added cs cs2" using m skip_added_trans(2) by blast
    have e': "enterR c r par (Node a cs2) = Inr (False, r1, marked)"
      using enterR_skip_added [OF a2] e False by simp
    have fixed: "(if marked then mark_skip cs2 else cs2) = cs2"
      using a12 mark_skip_fixed [of cs cs2] by (simp split: if_splits)
    have again: "walkR_children c r1 a cs2 = Inr (r2, cs2)"
      using "1.IH" [OF e refl refl False w] .
    show ?thesis unfolding n' r' walkR.simps e' using fixed again by simp
  qed
next
  case (2 c r pa)
  then show ?case by simp
next
  case (3 c r pa k ch cs)
  from "3.prems" obtain r1 ch1 where w1: "walkR c r (Some (pa, k)) ch = Inr (r1, ch1)"
    by (auto split: sum.splits)
  then obtain r2 cs2 where w2: "walkR_children c r1 pa cs = Inr (r2, cs2)"
    and c': "cs' = (k, ch1) # cs2" and r': "r' = r2"
    using "3.prems" by (auto split: sum.splits)
  show ?case using "3.IH"(1) [OF w1] "3.IH"(2) [OF w1 refl w2] c' r' by simp
qed

text \<open>
  Claim C7. On entering a node tagged with a scope, names that the scope declares
  are dropped from the active mapping, and a root name of \<^verbatim>\<open>deshadowList\<close> is to be
  mapped to its \<^verbatim>\<open>$$\<close> form only when that scope declares it. The code tests
  \<^verbatim>\<open>~scope.declarations[ name ]\<close>, which is -1 whether or not the name is declared, so
  the root name is remapped in every scope: in \<^verbatim>\<open>function g(){ return exports + foo; }\<close>
  with \<^verbatim>\<open>foo\<close> renamed to \<^verbatim>\<open>exports.foo\<close>, the \<^verbatim>\<open>exports\<close> written in \<^verbatim>\<open>g\<close> becomes
  \<^verbatim>\<open>exports$$\<close> although no scope of \<^verbatim>\<open>g\<close> declares \<^verbatim>\<open>exports\<close>.
\<close>

theorem deshadow_without_redeclaration:
  "map_sum id (fst \<circ> snd)
     (analyse_then_replace never_throws function_g [(''foo'', ''exports.foo'')] []) =
   Inr [AddSourcemapLocation 0, AddSourcemapLocation 9, AddSourcemapLocation 12,
        AddSourcemapLocation 14, AddSourcemapLocation 21, AddSourcemapLocation 21,
        AddSourcemapLocation 31,
        Overwrite 21 28 ''exports$$'', Overwrite 31 34 ''exports.foo'']"
  by code_simp

text \<open>
  Claim C8, as stated, fails: for a variable declaration with one declarator whose
  name is exported, \<^verbatim>\<open>replaceIdentifiers\<close> sets \<^verbatim>\<open>_skip\<close> on the declarator's
  identifier, so the statement's node is not the same after the call.
\<close>

theorem replaceIdentifiers_marks_node_counterexample:
  "map_sum id (node \<circ> fst) (analyse_then_replace never_throws var_x [] [(''x'', ''exports.x'')]) =
     Inr var_x \<and>
   map_sum id (node \<circ> snd \<circ> snd)
      (analyse_then_replace never_throws var_x [] [(''x'', ''exports.x'')]) =
     Inr (VariableDeclaration ''var''
            [VariableDeclarator (set_skip (Identifier ''x'' 4 5)) [Literal 8 9] 4 9] 0 10) \<and>
   set_skip (Identifier ''x'' 4 5) \<noteq> Identifier ''x'' 4 5"
  by code_simp

text \<open>
  Claim C8, amended. A call of \<^verbatim>\<open>replaceIdentifiers\<close> that returns gives an edited
  clone of the statement's buffer (the statement's own buffer with further edits)
  and leaves module, buffer, scopes, \<^verbatim>\<open>defines\<close>, \<^verbatim>\<open>modifies\<close>, \<^verbatim>\<open>dependsOn\<close> and
  \<^verbatim>\<open>isIncluded\<close> of the statement as they were; the node changes at most by \<^verbatim>\<open>_skip\<close>
  annotations that are added; and a second call with the same arguments returns the
  same buffer and changes nothing more.
\<close>

theorem replaceIdentifiers_frame:
  assumes "replaceIdentifiers ins st nms be = Inr (b, st')"
  shows "st' = st\<lparr>node := node st'\<rparr> \<and>
         module st' = module st \<and> magicString st' = magicString st \<and>
         scopes st' = scopes st \<and> scope st' = scope st \<and> defines_s st' = defines_s st \<and>
         modifies st' = modifies st \<and> dependsOn st' = dependsOn st \<and>
         isIncluded st' = isIncluded st \<and>
         skip_added (node st) (node st') \<and>
         (\<exists>es. b = magicString st @ es) \<and>
         replaceIdentifiers ins st' nms be = Inr (b, st')"
proof (cases "length (map fst nms) > 0 \<or> 0 < length (map fst be)")
  case False
  then have "b = magicString st" "st' = st" using assms by (auto simp: replaceIdentifiers_def)
  then show ?thesis using assms by (simp add: skip_added_refl)
next
  case True
  let ?c = "\<lparr>insert_throws = ins, scope_objects = scopes st,
             deshadowList = map (\<lambda>nm. takeWhile (\<lambda>ch. ch \<noteq> CHR ''.'') (entry nms nm)) (map fst nms),
             bundleExports = be\<rparr>"
  let ?r = "\<lparr>buf = magicString st, topLevel = True, names = Some nms, replacementStack = [nms]\<rparr>"
  from assms True obtain r' n' where w: "walkR ?c ?r None (node st) = Inr (r', n')"
    and b: "b = buf r'" and st': "st' = st\<lparr>node := n'\<rparr>"
    by (auto simp: replaceIdentifiers_def Let_def split: sum.splits)
  have added: "skip_added (node st) n'" using walkR_skip_added(1) [OF w] .
  obtain es where es: "buf r' = magicString st @ es" using walkR_buf(1) [OF w] by auto
  have again: "walkR ?c ?r None n' = Inr (r', n')" using walkR_again(1) [OF w] .
  have "replaceIdentifiers ins st' nms be = Inr (b, st')"
    using True again b st' by (simp add: replaceIdentifiers_def Let_def)
  then show ?thesis using st' added es b by simp
qed

theorem replaceIdentifiers_frame_witness:
  "replaceIdentifiers never_throws (Statement var_x [] (plain_module [])) [] [(''x'', ''exports.x'')] =
     Inr ([Overwrite 0 5 ''exports.x''],
          (Statement var_x [] (plain_module []))
            \<lparr>node := VariableDeclaration ''var''
                       [VariableDeclarator (set_skip (Identifier ''x'' 4 5)) [Literal 8 9] 4 9] 0 10\<rparr>) \<and>
   replaceIdentifiers never_throws
     ((Statement var_x [] (plain_module []))
        \<lparr>node := VariableDeclaration ''var''
                   [VariableDeclarator (set_skip (Identifier ''x'' 4 5)) [Literal 8 9] 4 9] 0 10\<rparr>)
     [] [(''x'', ''exports.x'')] =
     Inr ([Overwrite 0 5 ''exports.x''],
          (Statement var_x [] (plain_module []))
            \<lparr>node := VariableDeclaration ''var''
                       [VariableDeclarator (set_skip (Identifier ''x'' 4 5)) [Literal 8 9] 4 9] 0 10\<rparr>)"
proof -
  let ?st = "Statement var_x [] (plain_module [])"
  let ?st' = "?st\<lparr>node := VariableDeclaration ''var''
                       [VariableDeclarator (set_skip (Identifier ''x'' 4 5)) [Literal 8 9] 4 9] 0 10\<rparr>"
  have run: "replaceIdentifiers never_throws ?st [] [(''x'', ''exports.x'')] =
     Inr ([Overwrite 0 5 ''exports.x''], ?st')"
    by code_simp
  show ?thesis using replaceIdentifiers_frame [OF run] run by blast
qed

subsection \<open>Reads without a presence check\<close>

lemma declare_id_error:
  "declare_id h sc what ident a = Inl e \<Longrightarrow>
     e = TypeError ''scope.addDeclaration'' \<or> (ident = None \<and> e = TypeError what)"
  by (auto simp: declare_id_def split: option.splits)

lemma declare_all_error:
  "declare_all h sc ds a = Inl e \<Longrightarrow> list_all has_id ds \<Longrightarrow> e = TypeError ''scope.addDeclaration''"
proof (induction ds arbitrary: h)
  case Nil
  then show ?case by simp
next
  case (Cons d ds)
  then show ?case
    by (auto simp: has_id_def split: sum.splits option.splits dest!: declare_id_error)
qed

lemma enter_switch_error:
  assumes "enter_switch h sc (Node a cs) = Inl e" "has_names a cs"
  shows "e = TypeError ''scope.addDeclaration'' \<or> e = TypeError ''param.name''"
  using assms
  by (auto simp: enter_switch_def Let_def has_names_def has_id_def
           split: if_splits sum.splits option.splits prod.splits
           dest!: declare_id_error declare_all_error)

lemma enter1_error:
  assumes "enter1 st sc (Node a cs) = Inl e" "has_names a cs"
  shows "e = TypeError ''scope.addDeclaration'' \<or> e = TypeError ''param.name'' \<or>
         e = TypeError ''Cannot redefine property: _scope''"
  using assms
  by (auto simp: enter1_def Let_def split: sum.splits option.splits if_splits prod.splits
           dest!: enter_switch_error)

lemma leave_scope_error: "leave_scope h sc a = Inl e \<Longrightarrow> e = TypeError ''scope.parent''"
  by (auto simp: leave_scope_def split: if_splits option.splits)

lemma walk1_error:
  "walk1 st sc n = Inl e \<Longrightarrow> named n \<Longrightarrow>
     e = TypeError ''scope.addDeclaration'' \<or> e = TypeError ''param.name'' \<or>
     e = TypeError ''Cannot redefine property: _scope'' \<or> e = TypeError ''scope.parent''"
  "walk1_children st sc cs = Inl e \<Longrightarrow> named_children cs \<Longrightarrow>
     e = TypeError ''scope.addDeclaration'' \<or> e = TypeError ''param.name'' \<or>
     e = TypeError ''Cannot redefine property: _scope'' \<or> e = TypeError ''scope.parent''"
proof (induction st sc n and st sc cs rule: walk1_walk1_children.induct)
  case (1 st sc a cs)
  show ?case
  proof (cases "enter1 st sc (Node a cs)")
    case (Inl e1)
    then have "e1 = e" using "1.prems"(1) by simp
    then show ?thesis using enter1_error [OF Inl] "1.prems"(2) by auto
  next
    case (Inr x)
    obtain st1 sc1 a1 where x: "x = (st1, sc1, a1)" by (cases x)
    show ?thesis
    proof (cases "walk1_children st1 sc1 cs")
      case (Inl e1)
      then have "e1 = e" using "1.prems"(1) Inr x by simp
      then show ?thesis using "1.IH" [OF Inr [unfolded x] refl refl] Inl "1.prems"(2) by simp
    next
      case (Inr y)
      obtain st2 sc2 cs2 where y: "y = (st2, sc2, cs2)" by (cases y)
      have "leave_scope (scopes st2) sc2 a1 = Inl e"
        using "1.prems"(1) \<open>enter1 st sc (Node a cs) = Inr x\<close> x Inr y by (auto split: sum.splits)
      then show ?thesis using leave_scope_error by blast
    qed
  qed
next
  case (2 st sc)
  then show ?case by simp
next
  case (3 st sc k c cs)
  show ?case
  proof (cases "walk1 st sc c")
    case (Inl e1)
    then have "e1 = e" using "3.prems"(1) by simp
    then show ?thesis using "3.IH"(1) Inl "3.prems"(2) by simp
  next
    case (Inr x)
    obtain st1 sc1 c1 where x: "x = (st1, sc1, c1)" by (cases x)
    have "walk1_children st1 sc1 cs = Inl e"
      using "3.prems"(1) Inr x by (auto split: sum.splits)
    then show ?thesis using "3.IH"(2) [OF Inr [unfolded x] refl refl] "3.prems"(2) by simp
  qed
qed

lemma checkForReads_error:
  "checkForReads st sc n par = Inl e \<Longrightarrow>
     e = TypeError ''parent.type'' \<or> e = TypeError ''scope.findDefiningScope''"
  by (auto simp: checkForReads_def Let_def split: if_splits option.splits prod.splits)

lemma addNode_error:
  "addNode gl st sc t dis = Inl e \<Longrightarrow>
     (\<exists>nm f l. e = IllegalReassignment nm f l) \<or> e = TypeError ''node.type'' \<or>
     e = TypeError ''scope.contains''"
  by (auto simp: addNode_def Let_def split: if_splits option.splits prod.splits sum.splits
           dest!: unwrap_error)

lemma addNodes_error:
  "addNodes gl st sc ts = Inl e \<Longrightarrow>
     (\<exists>nm f l. e = IllegalReassignment nm f l) \<or> e = TypeError ''node.type'' \<or>
     e = TypeError ''scope.contains''"
proof (induction ts arbitrary: st)
  case Nil
  then show ?case by simp
next
  case (Cons t ts)
  then show ?case by (auto split: sum.splits dest!: addNode_error)
qed

lemma checkForWrites_error:
  "checkForWrites gl st sc n = Inl e \<Longrightarrow>
     (\<exists>nm f l. e = IllegalReassignment nm f l) \<or> e = TypeError ''node.type'' \<or>
     e = TypeError ''scope.contains''"
  by (auto simp: checkForWrites_def split: if_splits dest!: addNode_error addNodes_error)

lemma enter2_error:
  "enter2 gl st sc n par = Inl e \<Longrightarrow>
     (\<exists>nm f l. e = IllegalReassignment nm f l) \<or> e = TypeError ''node.type'' \<or>
     e = TypeError ''scope.contains'' \<or> e = TypeError ''parent.type'' \<or>
     e = TypeError ''scope.findDefiningScope''"
  unfolding enter2_def Let_def
  by (auto split: sum.splits dest!: checkForReads_error checkForWrites_error)

lemma walk2_error:
  "walk2 gl st sc par n = Inl e \<Longrightarrow>
     (\<exists>nm f l. e = IllegalReassignment nm f l) \<or> e = TypeError ''node.type'' \<or>
     e = TypeError ''scope.contains'' \<or> e = TypeError ''parent.type'' \<or>
     e = TypeError ''scope.findDefiningScope'' \<or> e = TypeError ''scope.parent''"
  "walk2_children gl st sc pa cs = Inl e \<Longrightarrow>
     (\<exists>nm f l. e = IllegalReassignment nm f l) \<or> e = TypeError ''node.type'' \<or>
     e = TypeError ''scope.contains'' \<or> e = TypeError ''parent.type'' \<or>
     e = TypeError ''scope.findDefiningScope'' \<or> e = TypeError ''scope.parent''"
proof (induction gl st sc par n and gl st sc pa cs rule: walk2_walk2_children.induct)
  case (1 gl st sc par a cs)
  show ?case
  proof (cases "enter2 gl st sc (Node a cs) par")
    case (Inl e1)
    then have "e1 = e" using "1.prems" by simp
    then show ?thesis using enter2_error [OF Inl] by auto
  next
    case (Inr x)
    obtain st1 sc1 where x: "x = (st1, sc1)" by (cases x)
    show ?thesis
    proof (cases "walk2_children gl st1 sc1 a cs")
      case (Inl e1)
      then have "e1 = e" using "1.prems" Inr x by simp
      then show ?thesis using "1.IH" [OF Inr [unfolded x] refl] Inl by simp
    next
      case (Inr y)
      obtain st2 sc2 where y: "y = (st2, sc2)" by (cases y)
      have "leave_scope (scopes st2) sc2 a = Inl e"
        using "1.prems" \<open>enter2 gl st sc (Node a cs) par = Inr x\<close> x Inr y by (auto split: sum.splits)
      then show ?thesis using leave_scope_error by blast
    qed
  qed
next
  case (2 gl st sc pa)
  then show ?case by simp
next
  case (3 gl st sc pa k c cs)
  show ?case
  proof (cases "walk2 gl st sc (Some (pa, k)) c")
    case (Inl e1)
    then have "e1 = e" using "3.prems" by simp
    then show ?thesis using "3.IH"(1) Inl by simp
  next
    case (Inr x)
    obtain st1 sc1 where x: "x = (st1, sc1)" by (cases x)
    have "walk2_children gl st1 sc1 pa cs = Inl e"
      using "3.prems" Inr x by simp
    then show ?thesis using "3.IH"(2) [OF Inr [unfolded x] refl] by simp
  qed
qed

lemma has_id_skip_added: "skip_added d d' \<Longrightarrow> has_id d' = has_id d"
proof -
  assume a: "skip_added d d'"
  then have r: "rel_option skip_added (field (children d) ''id'') (field (children d') ''id'')"
    using skip_added_attrs skips_added_field by blast
  show ?thesis
  proof (cases "field (children d) ''id''")
    case None
    then have "field (children d') ''id'' = None"
      using r by (cases "field (children d') ''id''") auto
    then show ?thesis using None by (simp add: has_id_def)
  next
    case (Some i)
    then obtain i' where i': "field (children d') ''id'' = Some i'" and ii: "skip_added i i'"
      using r by (cases "field (children d') ''id''") auto
    have "name (attrs i') = name (attrs i)" using ii skip_added_attrs by blast
    then show ?thesis using Some i' by (simp add: has_id_def)
  qed
qed

lemma list_all_has_id_skip_added:
  "list_all2 skip_added ds ds' \<Longrightarrow> list_all has_id ds' = list_all has_id ds"
  by (induction ds ds' rule: list_all2_induct) (auto simp: has_id_skip_added)

lemma has_names_skip_added:
  assumes "skips_added cs cs'"
  shows "has_names a cs' = has_names a cs"
proof -
  have l: "list_all2 skip_added (field_list cs ''declarations'') (field_list cs' ''declarations'')"
    using assms by (rule skips_added_field_list)
  then have e: "(field_list cs' ''declarations'' = []) = (field_list cs ''declarations'' = [])"
    by (cases "field_list cs ''declarations''"; cases "field_list cs' ''declarations''") auto
  have "skip_added (Node a cs) (Node a cs')" using assms by simp
  then have "has_id (Node a cs') = has_id (Node a cs)" by (rule has_id_skip_added)
  then show ?thesis using e list_all_has_id_skip_added [OF l] by (simp add: has_names_def)
qed

lemma named_skip_added:
  "skip_added n n' \<Longrightarrow> named n \<Longrightarrow> named n'"
  "skips_added cs cs' \<Longrightarrow> named_children cs \<Longrightarrow> named_children cs'"
proof (induction n n' and cs cs' rule: skip_added_skips_added.induct)
  case (1 a cs a' cs')
  then have s: "skips_added cs cs'" by simp
  have "ntype a' = ntype a" using "1.prems"(1) by auto
  then have "has_names a' cs' = has_names a cs'" by (simp add: has_names_def has_id_def)
  then show ?case using 1 has_names_skip_added [OF s] by simp
qed auto

lemma export_rewrite_error:
  assumes "export_rewrite c b (Node a cs) = Inl e" "ntype a = ''VariableDeclaration''"
    "has_names a cs"
  shows False
proof -
  from assms(2,3) obtain d ds where ds: "field_list cs ''declarations'' = d # ds"
    and all: "list_all has_id (d # ds)"
    by (cases "field_list cs ''declarations''") (auto simp: has_names_def)
  have names: "\<And>xs. list_all has_id xs \<Longrightarrow> \<exists>ns. declarator_names xs = Inr ns"
  proof -
    fix xs show "list_all has_id xs \<Longrightarrow> \<exists>ns. declarator_names xs = Inr ns"
      by (induction xs) (auto simp: has_id_def split: option.splits)
  qed
  obtain ns where ns: "declarator_names (d # ds) = Inr ns" using names [OF all] by blast
  obtain i where i: "field (children d) ''id'' = Some i"
    using all by (auto simp: has_id_def split: option.splits)
  show False using assms(1) unfolding export_rewrite_def Let_def
    using ds i ns by (simp del: declarator_names.simps split: if_splits)
qed

lemma rewrite_identifier_error:
  "rewrite_identifier r par n = Inl e \<Longrightarrow>
     e = TypeError ''parent.type'' \<or> e = TypeError ''names[ node.name ]''"
  by (auto simp: rewrite_identifier_def split: if_splits option.splits prod.splits)

lemma enterR_error:
  assumes "enterR c r par (Node a cs) = Inl e" "has_names a cs"
  shows "e = TypeError ''parent.type'' \<or> e = TypeError ''names[ node.name ]'' \<or>
         e = TypeError ''keys( names )''"
proof -
  have ex: "\<not> (topLevel r \<and> ntype a = ''VariableDeclaration'' \<and>
              export_rewrite c (buf r) (Node a cs) = Inl e)"
    using export_rewrite_error assms(2) by blast
  show ?thesis
    using assms(1) ex unfolding enterR_def Let_def
    by (auto split: if_splits sum.splits option.splits prod.splits dest!: rewrite_identifier_error)
qed

lemma walkR_error:
  "walkR c r par n = Inl e \<Longrightarrow> named n \<Longrightarrow>
     e = TypeError ''parent.type'' \<or> e = TypeError ''names[ node.name ]'' \<or>
     e = TypeError ''keys( names )''"
  "walkR_children c r pa cs = Inl e \<Longrightarrow> named_children cs \<Longrightarrow>
     e = TypeError ''parent.type'' \<or> e = TypeError ''names[ node.name ]'' \<or>
     e = TypeError ''keys( names )''"
proof (induction c r par n and c r pa cs rule: walkR_walkR_children.induct)
  case (1 c r par a cs)
  show ?case
  proof (cases "enterR c r par (Node a cs)")
    case (Inl e1)
    then have "e1 = e" using "1.prems"(1) by simp
    then show ?thesis using enterR_error [OF Inl] "1.prems"(2) by auto
  next
    case (Inr x)
    obtain skip r1 marked where x: "x = (skip, r1, marked)" by (cases x)
    have ns: "\<not> skip" using "1.prems"(1) Inr x by (auto split: if_splits)
    have w: "walkR_children c r1 a (if marked then mark_skip cs else cs) = Inl e"
      using "1.prems"(1) Inr x ns by (auto split: sum.splits)
    have "named_children (if marked then mark_skip cs else cs)"
      using "1.prems"(2) named_skip_added(2) [OF skips_added_mark_skip] by simp
    then show ?thesis using "1.IH" [OF Inr [unfolded x] refl refl ns w] by simp
  qed
next
  case (2 c r pa)
  then show ?case by simp
next
  case (3 c r pa k ch cs)
  show ?case
  proof (cases "walkR c r (Some (pa, k)) ch")
    case (Inl e1)
    then have "e1 = e" using "3.prems"(1) by simp
    then show ?thesis using "3.IH"(1) Inl "3.prems"(2) by simp
  next
    case (Inr x)
    obtain r1 ch1 where x: "x = (r1, ch1)" by (cases x)
    have "walkR_children c r1 pa cs = Inl e"
      using "3.prems"(1) Inr x by (auto split: sum.splits)
    then show ?thesis using "3.IH"(2) [OF Inr [unfolded x] refl] "3.prems"(2) by simp
  qed
qed

text \<open>
  Claim C10. \<^verbatim>\<open>analyse()\<close> and \<^verbatim>\<open>replaceIdentifiers()\<close> read the name of a function
  or class declaration's identifier, of each declarator's identifier and of the first
  declarator's identifier without testing that they are present. In this embedding
  each of these reads has a failure branch, a \<^verbatim>\<open>TypeError\<close> labelled with the
  expression read; under the precondition that the declarations of the statement's
  tree carry their names, neither function returns any of these errors.
\<close>

theorem declared_names_are_read_safely:
  assumes "named (node st)"
  shows "analyse gl st \<noteq> Inl (TypeError ''node.id.name'') \<and>
         analyse gl st \<noteq> Inl (TypeError ''declarator.id.name'') \<and>
         replaceIdentifiers ins st nms be \<noteq> Inl (TypeError ''node.declarations[0].id'') \<and>
         replaceIdentifiers ins st nms be \<noteq> Inl (TypeError ''node.declarations[0].id.name'') \<and>
         replaceIdentifiers ins st nms be \<noteq> Inl (TypeError ''declarator.id.name'')"
proof -
  have a: "s \<noteq> ''node.id.name'' \<and> s \<noteq> ''declarator.id.name''" if "analyse gl st = Inl (TypeError s)" for s
  proof (cases "walk1 st (Some (scope st)) (node st)")
    case (Inl e)
    then have "e = TypeError s" using that by (auto simp: analyse_def split: if_splits)
    then show ?thesis using walk1_error(1) [OF Inl assms] by auto
  next
    case (Inr x)
    obtain st1 sc1 n1 where x: "x = (st1, sc1, n1)" by (cases x)
    show ?thesis
    proof (cases "walk2 gl (st1\<lparr>node := n1\<rparr>) sc1 None n1")
      case (Inl e)
      then have "e = TypeError s" using that Inr x by (auto simp: analyse_def split: if_splits)
      then show ?thesis using walk2_error(1) [OF Inl] by auto
    next
      case (Inr y)
      then have "s = ''scope.declarations''"
        using that \<open>walk1 st (Some (scope st)) (node st) = Inr x\<close> x
        by (auto simp: analyse_def split: if_splits option.splits prod.splits)
      then show ?thesis by simp
    qed
  qed
  have r: "s = ''parent.type'' \<or> s = ''names[ node.name ]'' \<or> s = ''keys( names )''"
    if "replaceIdentifiers ins st nms be = Inl (TypeError s)" for s
  proof -
    from that obtain c r0 where "walkR c r0 None (node st) = Inl (TypeError s)"
      by (auto simp: replaceIdentifiers_def Let_def split: if_splits sum.splits)
    then show ?thesis using walkR_error(1) assms by blast
  qed
  show ?thesis using a r by fastforce
qed

theorem declared_names_are_read_safely_witness:
  "named (node (Statement export_function_a [] (plain_module []))) \<and>
   analyse line_column (Statement export_function_a [] (plain_module [])) \<noteq>
     Inl (TypeError ''node.id.name'') \<and>
   named (node (Statement var_a_b [] (plain_module []))) \<and>
   replaceIdentifiers never_throws (Statement var_a_b [] (plain_module [])) [] [(''b'', ''exports.b'')] \<noteq>
     Inl (TypeError ''node.declarations[0].id'')"
proof -
  have h: "named (node (Statement export_function_a [] (plain_module [])))" by code_simp
  have g: "named (node (Statement var_a_b [] (plain_module [])))" by code_simp
  show ?thesis
    using declared_names_are_read_safely [OF h, of line_column]
          declared_names_are_read_safely [OF g, of _ never_throws "[]" "[(''b'', ''exports.b'')]"]
          h g
    by blast
qed

subsection \<open>Export rewriting of top-level declarations\<close>






































subsection \<open>Expansion\<close>

declare expand.simps [simp del] define_m.simps [simp del]

lemma grows_refl: "grows S [] S"
  by (simp add: grows_def list_all2_same)

lemma grows_pointwise:
  "grows S r S' \<Longrightarrow>
     list_all2 (\<lambda>s s'. s' = s\<lparr>isIncluded := isIncluded s'\<rparr> \<and> (isIncluded s \<longrightarrow> isIncluded s')) S S'"
  by (simp add: grows_def)

lemma grows_length: "grows S r S' \<Longrightarrow> length S' = length S"
proof -
  assume "grows S r S'"
  then have "length S = length S'" using grows_pointwise list_all2_lengthD by blast
  then show ?thesis by simp
qed

lemma grows_nth:
  assumes "grows S r S'" "k < length S"
  shows "S' ! k = (S ! k)\<lparr>isIncluded := isIncluded (S' ! k)\<rparr> \<and> (isIncluded (S ! k) \<longrightarrow> isIncluded (S' ! k))"
  using list_all2_nthD [OF grows_pointwise [OF assms(1)] assms(2)] .

lemma grows_set:
  "grows S r S' \<Longrightarrow> set r = {k. k < length S \<and> isIncluded (S' ! k) \<and> \<not> isIncluded (S ! k)}"
  by (simp add: grows_def)

lemma grows_distinct: "grows S r S' \<Longrightarrow> distinct r"
  by (simp add: grows_def)

lemma grows_trans:
  assumes "grows S r S1" "grows S1 r' S2"
  shows "grows S (r @ r') S2"
proof -
  have len: "length S1 = length S" "length S2 = length S"
    using assms grows_length by auto
  have pt: "list_all2 (\<lambda>s s'. s' = s\<lparr>isIncluded := isIncluded s'\<rparr> \<and> (isIncluded s \<longrightarrow> isIncluded s')) S S2"
  proof (rule list_all2_all_nthI)
    show "length S = length S2" using len by simp
  next
    fix k assume k: "k < length S"
    have a: "S1 ! k = (S ! k)\<lparr>isIncluded := isIncluded (S1 ! k)\<rparr>" "isIncluded (S ! k) \<longrightarrow> isIncluded (S1 ! k)"
      using grows_nth [OF assms(1) k] by auto
    have b: "S2 ! k = (S1 ! k)\<lparr>isIncluded := isIncluded (S2 ! k)\<rparr>" "isIncluded (S1 ! k) \<longrightarrow> isIncluded (S2 ! k)"
      using grows_nth [OF assms(2)] k len by auto
    obtain x where x: "S1 ! k = (S ! k)\<lparr>isIncluded := x\<rparr>" using a(1) by blast
    have "S2 ! k = (S ! k)\<lparr>isIncluded := isIncluded (S2 ! k)\<rparr>"
      using b(1) unfolding x by simp
    then show "S2 ! k = (S ! k)\<lparr>isIncluded := isIncluded (S2 ! k)\<rparr> \<and> (isIncluded (S ! k) \<longrightarrow> isIncluded (S2 ! k))"
      using a(2) b(2) by simp
  qed
  have s1: "set r = {k. k < length S \<and> isIncluded (S1 ! k) \<and> \<not> isIncluded (S ! k)}"
    using grows_set [OF assms(1)] .
  have s2: "set r' = {k. k < length S \<and> isIncluded (S2 ! k) \<and> \<not> isIncluded (S1 ! k)}"
    using grows_set [OF assms(2)] len by simp
  have mono1: "\<And>k. k < length S \<Longrightarrow> isIncluded (S ! k) \<Longrightarrow> isIncluded (S1 ! k)"
    using grows_nth [OF assms(1)] by blast
  have mono2: "\<And>k. k < length S \<Longrightarrow> isIncluded (S1 ! k) \<Longrightarrow> isIncluded (S2 ! k)"
    using grows_nth [OF assms(2)] len by simp
  have disj: "set r \<inter> set r' = {}" using s1 s2 by auto
  have un: "set (r @ r') = {k. k < length S \<and> isIncluded (S2 ! k) \<and> \<not> isIncluded (S ! k)}"
    using s1 s2 mono1 mono2 by auto
  show ?thesis
    unfolding grows_def using pt un disj grows_distinct [OF assms(1)] grows_distinct [OF assms(2)]
    by simp
qed

lemma sequence_grows:
  assumes "\<And>x T p T'. x \<in> set xs \<Longrightarrow> f x T = Some (p, T') \<Longrightarrow> grows T p T'"
    and "sequence f xs S = Some (r, S')"
  shows "grows S r S'"
  using assms
proof (induction xs arbitrary: S r)
  case Nil
  then show ?case by (simp add: grows_refl)
next
  case (Cons x xs)
  from Cons.prems(2) obtain p S1 rs where f: "f x S = Some (p, S1)"
    and rest: "sequence f xs S1 = Some (rs, S')" and r: "r = p @ rs"
    by (auto split: option.splits)
  have "grows S p S1" using Cons.prems(1) [of x S p S1] f by simp
  moreover have "grows S1 rs S'"
  proof (rule Cons.IH [OF _ rest])
    fix y T q T' assume "y \<in> set xs" "f y T = Some (q, T')"
    then show "grows T q T'" using Cons.prems(1) [of y T q T'] by simp
  qed
  ultimately show ?case using r grows_trans by blast
qed

lemma grows_include:
  assumes "i < length S" "\<not> isIncluded (S ! i)"
  shows "grows S [i] (S[i := (S ! i)\<lparr>isIncluded := True\<rparr>])"
proof -
  have "list_all2 (\<lambda>s s'. s' = s\<lparr>isIncluded := isIncluded s'\<rparr> \<and> (isIncluded s \<longrightarrow> isIncluded s')) S
          (S[i := (S ! i)\<lparr>isIncluded := True\<rparr>])"
  proof (rule list_all2_all_nthI)
    show "length S = length (S[i := (S ! i)\<lparr>isIncluded := True\<rparr>])" by simp
  next
    fix n assume "n < length S"
    show "S[i := (S ! i)\<lparr>isIncluded := True\<rparr>] ! n =
          (S ! n)\<lparr>isIncluded := isIncluded (S[i := (S ! i)\<lparr>isIncluded := True\<rparr>] ! n)\<rparr> \<and>
          (isIncluded (S ! n) \<longrightarrow> isIncluded (S[i := (S ! i)\<lparr>isIncluded := True\<rparr>] ! n))"
      using \<open>n < length S\<close> by (cases "n = i") simp_all
  qed
  moreover have "{k. k < length S \<and> isIncluded (S[i := (S ! i)\<lparr>isIncluded := True\<rparr>] ! k) \<and> \<not> isIncluded (S ! k)} = {i}"
    using assms by (auto simp: nth_list_update)
  ultimately show ?thesis by (simp add: grows_def)
qed

lemma grows_permute:
  "grows S r S' \<Longrightarrow> set r' = set r \<Longrightarrow> distinct r' \<Longrightarrow> grows S r' S'"
  by (simp add: grows_def)

lemma expand_grows_step:
  assumes IH: "\<forall>S i r S'. expand fuel S i = Some (r, S') \<longrightarrow> grows S r S'"
  shows "define_m fuel S m nm = Some (r, S') \<Longrightarrow> grows S r S'"
    and "include_modifier fuel j S = Some (r, S') \<Longrightarrow> grows S r S'"
    and "include_modifiers fuel m nm S = Some (r, S') \<Longrightarrow> grows S r S'"
proof -
  show "define_m fuel S m nm = Some (r, S') \<Longrightarrow> grows S r S'"
  proof (cases "map_of (definitions m) nm")
    case None
    assume "define_m fuel S m nm = Some (r, S')"
    then show ?thesis using None by (simp add: define_m.simps grows_refl)
  next
    case (Some ids)
    assume "define_m fuel S m nm = Some (r, S')"
    then have "sequence (\<lambda>i T. expand fuel T i) ids S = Some (r, S')"
      using Some by (simp add: define_m.simps)
    then show ?thesis using sequence_grows [of ids "\<lambda>i T. expand fuel T i" S r S'] IH by blast
  qed
  have m1: "grows T p T'" if "include_modifier fuel k T = Some (p, T')" for k T p T'
    using that IH by (auto simp: include_modifier_def grows_refl split: if_splits)
  show "include_modifier fuel j S = Some (r, S') \<Longrightarrow> grows S r S'"
    using m1 .
  show "include_modifiers fuel m nm S = Some (r, S') \<Longrightarrow> grows S r S'"
  proof (cases "map_of (modifications m) nm")
    case None
    assume "include_modifiers fuel m nm S = Some (r, S')"
    then show ?thesis using None by (simp add: include_modifiers_def grows_refl)
  next
    case (Some mods)
    assume "include_modifiers fuel m nm S = Some (r, S')"
    then have "sequence (include_modifier fuel) mods S = Some (r, S')"
      using Some by (simp add: include_modifiers_def)
    then show ?thesis using sequence_grows [of mods "include_modifier fuel" S r S'] m1 by blast
  qed
qed

lemma expand_Suc:
  "expand (Suc fuel) S i =
     (if i < length S then
        (if isIncluded (S ! i) then Some ([], S)
         else
           (case sequence (include_dependency fuel (module (S ! i))) (dependsOn (S ! i))
                   (S[i := (S ! i)\<lparr>isIncluded := True\<rparr>]) of
              None \<Rightarrow> None
            | Some (result, S1) \<Rightarrow>
                (case sequence (include_modifiers fuel (module (S ! i))) (defines_s (S ! i)) S1 of
                   None \<Rightarrow> None
                 | Some (statements, S2) \<Rightarrow> Some (result @ [i] @ statements, S2))))
      else Some ([], S))"
  unfolding expand.simps(2) include_dependency_def [abs_def] include_modifiers_def [abs_def]
    include_modifier_def [abs_def] define_m.simps ..

lemma expand_grows: "expand fuel S i = Some (r, S') \<Longrightarrow> grows S r S'"
proof (induction fuel arbitrary: S i r S')
  case 0
  then show ?case by (simp add: expand.simps)
next
  case (Suc fuel)
  have IH: "\<forall>S i r S'. expand fuel S i = Some (r, S') \<longrightarrow> grows S r S'"
    using Suc.IH by blast
  note step = expand_grows_step [OF IH]
  show ?case
  proof (cases "i < length S \<and> \<not> isIncluded (S ! i)")
    case False
    then have "r = []" "S' = S" using Suc.prems [unfolded expand_Suc] by (auto split: if_splits)
    then show ?thesis by (simp add: grows_refl)
  next
    case True
    let ?S0 = "S[i := (S ! i)\<lparr>isIncluded := True\<rparr>]"
    from Suc.prems [unfolded expand_Suc] True obtain r1 S1 r2 where
      d: "sequence (include_dependency fuel (module (S ! i))) (dependsOn (S ! i)) ?S0 = Some (r1, S1)"
      and m: "sequence (include_modifiers fuel (module (S ! i))) (defines_s (S ! i)) S1 = Some (r2, S')"
      and r: "r = r1 @ [i] @ r2"
      by (auto split: option.splits)
    have g0: "grows S [i] ?S0" using grows_include True by simp
    have g1: "grows ?S0 r1 S1"
      using sequence_grows [OF _ d] step(1) unfolding include_dependency_def by blast
    have g2: "grows S1 r2 S'"
      using sequence_grows [OF _ m] step(3) by blast
    have g: "grows S ([i] @ r1 @ r2) S'" using grows_trans [OF g0 grows_trans [OF g1 g2]] .
    show ?thesis
      using grows_permute [OF g, of r] grows_distinct [OF g] r by auto
  qed
qed

lemma expand_all_grow:
  "\<forall>S i r S'. expand fuel S i = Some (r, S') \<longrightarrow> grows S r S'"
  using expand_grows by blast

lemmas define_grows = expand_grows_step(1) [OF expand_all_grow]
lemmas include_modifier_grows = expand_grows_step(2) [OF expand_all_grow]
lemmas include_modifiers_grows = expand_grows_step(3) [OF expand_all_grow]

lemma include_dependency_grows:
  "include_dependency fuel m nm S = Some (r, S') \<Longrightarrow> grows S r S'"
  unfolding include_dependency_def by (rule define_grows)

lemma grows_keeps:
  "grows S r S' \<Longrightarrow> k < length S \<Longrightarrow> isIncluded (S ! k) \<Longrightarrow> isIncluded (S' ! k)"
  using grows_nth by blast

lemma expand_parts:
  assumes "expand (Suc fuel) S i = Some (r, S')" "i < length S" "\<not> isIncluded (S ! i)"
  shows "\<exists>r1 S1 r2.
           sequence (include_dependency fuel (module (S ! i))) (dependsOn (S ! i))
             (S[i := (S ! i)\<lparr>isIncluded := True\<rparr>]) = Some (r1, S1) \<and>
           sequence (include_modifiers fuel (module (S ! i))) (defines_s (S ! i)) S1 = Some (r2, S') \<and>
           r = r1 @ [i] @ r2 \<and>
           grows (S[i := (S ! i)\<lparr>isIncluded := True\<rparr>]) r1 S1 \<and> grows S1 r2 S'"
proof -
  let ?S0 = "S[i := (S ! i)\<lparr>isIncluded := True\<rparr>]"
  from assms [unfolded expand_Suc] obtain r1 S1 r2 where
    d: "sequence (include_dependency fuel (module (S ! i))) (dependsOn (S ! i)) ?S0 = Some (r1, S1)"
    and m: "sequence (include_modifiers fuel (module (S ! i))) (defines_s (S ! i)) S1 = Some (r2, S')"
    and r: "r = r1 @ [i] @ r2"
    by (auto split: option.splits)
  have g1: "grows ?S0 r1 S1"
    using sequence_grows [OF _ d] include_dependency_grows by blast
  have g2: "grows S1 r2 S'"
    using sequence_grows [OF _ m] include_modifiers_grows by blast
  show ?thesis using d m r g1 g2 by blast
qed

lemma expand_includes:
  assumes "expand fuel S i = Some (r, S')" "i < length S"
  shows "isIncluded (S' ! i)"
proof (cases fuel)
  case 0
  then show ?thesis using assms by (simp add: expand.simps)
next
  case (Suc f)
  show ?thesis
  proof (cases "isIncluded (S ! i)")
    case True
    then have "S' = S" using assms Suc by (simp add: expand_Suc)
    then show ?thesis using True by simp
  next
    case False
    let ?S0 = "S[i := (S ! i)\<lparr>isIncluded := True\<rparr>]"
    from expand_parts [OF assms(1) [unfolded Suc] assms(2) False] obtain r1 S1 r2 where
      g1: "grows ?S0 r1 S1" and g2: "grows S1 r2 S'" by blast
    have "isIncluded (?S0 ! i)" using assms(2) by simp
    then have "isIncluded (S1 ! i)" using grows_keeps [OF g1] assms(2) by simp
    then show ?thesis using grows_keeps [OF g2] assms(2) grows_length [OF g1] by simp
  qed
qed

lemma pending_pointwise:
  "list_all2 (\<lambda>s s'. s' = s\<lparr>isIncluded := isIncluded s'\<rparr> \<and> (isIncluded s \<longrightarrow> isIncluded s')) S S' \<Longrightarrow>
     pending S' \<le> pending S"
  unfolding pending_def by (induction S S' rule: list_all2_induct) auto

lemma pending_grows: "grows S r S' \<Longrightarrow> pending S' \<le> pending S"
  using grows_pointwise pending_pointwise by blast

lemma pending_include:
  "i < length S \<Longrightarrow> \<not> isIncluded (S ! i) \<Longrightarrow>
     pending (S[i := (S ! i)\<lparr>isIncluded := True\<rparr>]) < pending S"
proof (induction S arbitrary: i)
  case Nil
  then show ?case by simp
next
  case (Cons s S)
  show ?case
  proof (cases i)
    case 0
    then show ?thesis using Cons.prems by (simp add: pending_def)
  next
    case (Suc j)
    then have "pending (S[j := (S ! j)\<lparr>isIncluded := True\<rparr>]) < pending S"
      using Cons by simp
    then show ?thesis using Suc by (simp add: pending_def)
  qed
qed

lemma sequence_total:
  assumes "\<And>x T. x \<in> set xs \<Longrightarrow> pending T \<le> n \<Longrightarrow> \<exists>p T'. f x T = Some (p, T') \<and> grows T p T'"
    and "pending S \<le> n"
  shows "\<exists>r S'. sequence f xs S = Some (r, S') \<and> grows S r S'"
  using assms
proof (induction xs arbitrary: S)
  case Nil
  then show ?case by (simp add: grows_refl)
next
  case (Cons x xs)
  obtain p S1 where f: "f x S = Some (p, S1)" and g: "grows S p S1"
    using Cons.prems(1) [of x S] Cons.prems(2) by auto
  have "pending S1 \<le> n" using pending_grows [OF g] Cons.prems(2) by simp
  moreover have "\<And>y T. y \<in> set xs \<Longrightarrow> pending T \<le> n \<Longrightarrow> \<exists>p T'. f y T = Some (p, T') \<and> grows T p T'"
    using Cons.prems(1) by simp
  ultimately obtain rs S' where rest: "sequence f xs S1 = Some (rs, S')" and g': "grows S1 rs S'"
    using Cons.IH by blast
  show ?case using f rest grows_trans [OF g g'] by simp
qed

lemma expand_total:
  "pending S < fuel \<Longrightarrow> \<exists>r S'. expand fuel S i = Some (r, S')"
proof (induction fuel arbitrary: S i)
  case 0
  then show ?case by simp
next
  case (Suc fuel)
  have ex: "\<exists>p T'. expand fuel T j = Some (p, T') \<and> grows T p T'" if "pending T < fuel" for T j
    using Suc.IH [OF that] expand_grows by blast
  show ?case
  proof (cases "i < length S \<and> \<not> isIncluded (S ! i)")
    case False
    then show ?thesis by (auto simp: expand_Suc)
  next
    case True
    let ?S0 = "S[i := (S ! i)\<lparr>isIncluded := True\<rparr>]"
    let ?m = "module (S ! i)"
    have p0: "pending ?S0 < pending S" using pending_include True by simp
    then have fuel: "pending ?S0 < fuel" using Suc.prems by simp
    define n where "n = fuel - 1"
    have n: "pending ?S0 \<le> n" "\<And>T. pending T \<le> n \<Longrightarrow> pending T < fuel"
      using fuel by (auto simp: n_def)
    have dep: "\<exists>p T'. include_dependency fuel ?m nm T = Some (p, T') \<and> grows T p T'"
      if "pending T \<le> n" for nm T
    proof (cases "map_of (definitions ?m) nm")
      case None
      then show ?thesis by (simp add: include_dependency_def define_m.simps grows_refl)
    next
      case (Some ids)
      have "\<exists>r S'. sequence (\<lambda>i T. expand fuel T i) ids T = Some (r, S') \<and> grows T r S'"
        by (rule sequence_total [where n = n]) (use ex n(2) that in auto)
      then show ?thesis using Some by (simp add: include_dependency_def define_m.simps)
    qed
    have md: "\<exists>p T'. include_modifier fuel j T = Some (p, T') \<and> grows T p T'"
      if "pending T \<le> n" for j T
      using ex [of T j] n(2) [OF that] by (auto simp: include_modifier_def grows_refl)
    have mds: "\<exists>p T'. include_modifiers fuel ?m nm T = Some (p, T') \<and> grows T p T'"
      if "pending T \<le> n" for nm T
    proof (cases "map_of (modifications ?m) nm")
      case None
      then show ?thesis by (simp add: include_modifiers_def grows_refl)
    next
      case (Some mods)
      have "\<exists>r S'. sequence (include_modifier fuel) mods T = Some (r, S') \<and> grows T r S'"
        by (rule sequence_total [where n = n]) (use md that in auto)
      then show ?thesis using Some by (simp add: include_modifiers_def)
    qed
    obtain r1 S1 where d: "sequence (include_dependency fuel ?m) (dependsOn (S ! i)) ?S0 = Some (r1, S1)"
      and g1: "grows ?S0 r1 S1"
      using sequence_total [of "dependsOn (S ! i)" n "include_dependency fuel ?m" ?S0] dep n(1) by blast
    have "pending S1 \<le> n" using pending_grows [OF g1] n(1) by simp
    then obtain r2 S2 where "sequence (include_modifiers fuel ?m) (defines_s (S ! i)) S1 = Some (r2, S2)"
      using sequence_total [of "defines_s (S ! i)" n "include_modifiers fuel ?m" S1] mds by blast
    then show ?thesis using True d by (simp add: expand_Suc)
  qed
qed

lemma sequence_establishes:
  assumes step: "\<And>x T p T'. x \<in> set xs \<Longrightarrow> f x T = Some (p, T') \<Longrightarrow> grows T p T' \<and> Post x T'"
    and keep: "\<And>x T p T'. Post x T \<Longrightarrow> grows T p T' \<Longrightarrow> Post x T'"
    and run: "sequence f xs S = Some (r, S')"
  shows "\<forall>x \<in> set xs. Post x S'"
  using step run
proof (induction xs arbitrary: S r)
  case Nil
  then show ?case by simp
next
  case (Cons x xs)
  from Cons.prems(2) obtain p S1 rs where f: "f x S = Some (p, S1)"
    and rest: "sequence f xs S1 = Some (rs, S')"
    by (auto split: option.splits)
  have st: "grows T q T' \<and> Post y T'" if "y \<in> set xs" "f y T = Some (q, T')" for y T q T'
    using Cons.prems(1) [of y T q T'] that by simp
  have "Post x S1" using Cons.prems(1) [of x S p S1] f by simp
  moreover have "grows S1 rs S'" using sequence_grows [OF _ rest] st by blast
  ultimately have "Post x S'" using keep by blast
  moreover have "\<forall>y \<in> set xs. Post y S'" using Cons.IH [OF st rest] by blast
  ultimately show ?case by simp
qed

lemma include_modifier_includes:
  assumes "include_modifier fuel j T = Some (p, T')"
  shows "grows T p T' \<and> (j < length T' \<longrightarrow> isIncluded (T' ! j))"
proof -
  have g: "grows T p T'" using assms by (rule include_modifier_grows)
  show ?thesis
  proof (cases "j < length T \<and> \<not> isIncluded (T ! j)")
    case True
    then have "expand fuel T j = Some (p, T')" using assms by (simp add: include_modifier_def)
    then show ?thesis using expand_includes True g by blast
  next
    case False
    then have "T' = T" using assms by (auto simp: include_modifier_def split: if_splits)
    then show ?thesis using False g by auto
  qed
qed

lemma included_kept:
  "(j < length T \<longrightarrow> isIncluded (T ! j)) \<Longrightarrow> grows T p T' \<Longrightarrow> (j < length T' \<longrightarrow> isIncluded (T' ! j))"
  using grows_keeps grows_length by metis

lemma sequence_more:
  assumes "\<And>x T z. x \<in> set xs \<Longrightarrow> f x T = Some z \<Longrightarrow> g x T = Some z"
    and "sequence f xs S = Some z"
  shows "sequence g xs S = Some z"
  using assms
proof (induction xs arbitrary: S z)
  case Nil
  then show ?case by simp
next
  case (Cons x xs)
  from Cons.prems(2) obtain p S1 rs S2 where f: "f x S = Some (p, S1)"
    and rest: "sequence f xs S1 = Some (rs, S2)" and z: "z = (p @ rs, S2)"
    by (auto split: option.splits)
  have "g x S = Some (p, S1)" using Cons.prems(1) [of x S "(p, S1)"] f by simp
  moreover have "sequence g xs S1 = Some (rs, S2)"
  proof (rule Cons.IH [OF _ rest])
    fix y T y' assume "y \<in> set xs" "f y T = Some y'"
    then show "g y T = Some y'" using Cons.prems(1) [of y T y'] by simp
  qed
  ultimately show ?case using z by simp
qed

lemma expand_more_fuel: "expand fuel S i = Some z \<Longrightarrow> expand (Suc fuel) S i = Some z"
proof (induction fuel arbitrary: S i z)
  case 0
  then show ?case by (simp add: expand.simps)
next
  case (Suc fuel)
  have d: "include_dependency (Suc fuel) m nm T = Some y" if "include_dependency fuel m nm T = Some y" for m nm T y
  proof (cases "map_of (definitions m) nm")
    case None
    then show ?thesis using that by (simp add: include_dependency_def define_m.simps)
  next
    case (Some ids)
    then have "sequence (\<lambda>i T. expand fuel T i) ids T = Some y"
      using that by (simp add: include_dependency_def define_m.simps)
    then have "sequence (\<lambda>i T. expand (Suc fuel) T i) ids T = Some y"
      using sequence_more [of ids "\<lambda>i T. expand fuel T i" "\<lambda>i T. expand (Suc fuel) T i"] Suc.IH by blast
    then show ?thesis using Some by (simp add: include_dependency_def define_m.simps)
  qed
  have m1: "include_modifier (Suc fuel) j T = Some y" if "include_modifier fuel j T = Some y" for j T y
    using that Suc.IH by (auto simp: include_modifier_def split: if_splits)
  have ms: "include_modifiers (Suc fuel) m nm T = Some y" if "include_modifiers fuel m nm T = Some y" for m nm T y
  proof (cases "map_of (modifications m) nm")
    case None
    then show ?thesis using that by (simp add: include_modifiers_def)
  next
    case (Some mods)
    then have "sequence (include_modifier fuel) mods T = Some y"
      using that by (simp add: include_modifiers_def)
    then have "sequence (include_modifier (Suc fuel)) mods T = Some y"
      using sequence_more [of mods "include_modifier fuel" "include_modifier (Suc fuel)"] m1 by blast
    then show ?thesis using Some by (simp add: include_modifiers_def)
  qed
  show ?case
  proof (cases "i < length S \<and> \<not> isIncluded (S ! i)")
    case False
    then show ?thesis using Suc.prems by (auto simp: expand_Suc split: if_splits)
  next
    case True
    let ?S0 = "S[i := (S ! i)\<lparr>isIncluded := True\<rparr>]"
    obtain r S' where z: "z = (r, S')" by (cases z)
    from expand_parts [OF Suc.prems [unfolded z]] True obtain r1 S1 r2 where
      a: "sequence (include_dependency fuel (module (S ! i))) (dependsOn (S ! i)) ?S0 = Some (r1, S1)"
      and b: "sequence (include_modifiers fuel (module (S ! i))) (defines_s (S ! i)) S1 = Some (r2, S')"
      and r: "r = r1 @ [i] @ r2" by blast
    have a': "sequence (include_dependency (Suc fuel) (module (S ! i))) (dependsOn (S ! i)) ?S0 = Some (r1, S1)"
      using sequence_more [OF _ a] d by blast
    have b': "sequence (include_modifiers (Suc fuel) (module (S ! i))) (defines_s (S ! i)) S1 = Some (r2, S')"
      using sequence_more [OF _ b] ms by blast
    show ?thesis using True a' b' r z by (simp add: expand_Suc [of "Suc fuel"])
  qed
qed

lemma sequence_append:
  "sequence f (xs @ ys) S =
     (case sequence f xs S of
        None \<Rightarrow> None
      | Some (r1, S1) \<Rightarrow>
          (case sequence f ys S1 of
             None \<Rightarrow> None
           | Some (r2, S2) \<Rightarrow> Some (r1 @ r2, S2)))"
  by (induction xs arbitrary: S) (auto split: option.splits)

lemma sequence_recorded:
  "sequence (\<lambda>nm T. case map_of tbl nm of None \<Rightarrow> Some ([], T) | Some ids \<Rightarrow> sequence f ids T) nms S =
   sequence f (recorded tbl nms) S"
proof (induction nms arbitrary: S)
  case Nil
  then show ?case by (simp add: recorded_def)
next
  case (Cons nm nms)
  have r: "recorded tbl (nm # nms) =
             (case map_of tbl nm of None \<Rightarrow> [] | Some ids \<Rightarrow> ids) @ recorded tbl nms"
    by (simp add: recorded_def)
  show ?case
    unfolding r sequence_append
    by (cases "map_of tbl nm") (auto simp: Cons.IH split: option.splits)
qed

lemma dependencies_recorded:
  "sequence (\<lambda>nm T. define_m fuel T m nm) nms S =
   sequence (\<lambda>k U. expand fuel U k) (recorded (definitions m) nms) S"
  unfolding define_m.simps by (rule sequence_recorded)

lemma modifiers_recorded:
  "sequence (include_modifiers fuel m) nms S =
   sequence (\<lambda>j U. if j < length U \<and> \<not> isIncluded (U ! j) then expand fuel U j else Some ([], U))
     (recorded (modifications m) nms) S"
  unfolding include_modifiers_def [abs_def] include_modifier_def [abs_def]
  by (rule sequence_recorded)

lemma expand_includes_later:
  assumes "expand fuel T k = Some (p, T')"
  shows "grows T p T' \<and> (k < length T' \<longrightarrow> isIncluded (T' ! k))"
  using assms expand_grows expand_includes grows_length by metis

text \<open>
  Claim C1. A call of \<^verbatim>\<open>expand()\<close> on a statement that is not yet included, with
  fuel for the statements not yet included, returns. The returned list is the
  results of \<^verbatim>\<open>define\<close> for the names of \<^verbatim>\<open>dependsOn\<close>, in order, then the statement
  itself, then the expansions of the modifiers recorded for the names of \<^verbatim>\<open>defines\<close>,
  in recorded order, each expanded if it is not included when its turn comes; a
  modifier that the call has included before, as a dependency, is not expanded
  again and stands before the statement. The statement occurs once in the list, and
  no statement occurs twice. Every statement that defines a name of \<^verbatim>\<open>dependsOn\<close> is
  included when the statement is appended and never stands after it; if it was not
  included before the call, it stands before the statement. Every recorded modifier
  is included afterwards, and one that was not yet included when the statement was
  appended stands after the statement. A sequence of calls in one session returns,
  and no statement occurs twice in its results.
\<close>

theorem expand_order:
  assumes i: "i < length S" "\<not> isIncluded (S ! i)"
    and enough: "pending S \<le> fuel"
  shows "\<exists>r S' r1 S1 r2.
           expand (Suc fuel) S i = Some (r, S') \<and>
           r = r1 @ [i] @ r2 \<and> i \<notin> set r1 \<and> i \<notin> set r2 \<and> distinct r \<and>
           sequence (\<lambda>nm T. define_m fuel T (module (S ! i)) nm) (dependsOn (S ! i))
             (S[i := (S ! i)\<lparr>isIncluded := True\<rparr>]) = Some (r1, S1) \<and>
           (\<forall>k \<in> set (recorded (definitions (module (S ! i))) (dependsOn (S ! i))).
               k < length S \<longrightarrow>
                 isIncluded (S1 ! k) \<and> k \<notin> set r2 \<and>
                 (\<not> isIncluded (S ! k) \<and> k \<noteq> i \<longrightarrow> k \<in> set r1)) \<and>
           sequence (\<lambda>j U. if j < length U \<and> \<not> isIncluded (U ! j)
                           then expand fuel U j else Some ([], U))
             (recorded (modifications (module (S ! i))) (defines_s (S ! i))) S1 = Some (r2, S') \<and>
           (\<forall>j \<in> set (recorded (modifications (module (S ! i))) (defines_s (S ! i))).
               j < length S \<longrightarrow>
                 isIncluded (S' ! j) \<and> (\<not> isIncluded (S1 ! j) \<longrightarrow> j \<in> set r2)) \<and>
           (\<forall>ids T. pending T < fuel' \<longrightarrow>
              (\<exists>rs T'. sequence (\<lambda>k U. expand fuel' U k) ids T = Some (rs, T') \<and> distinct rs))"
proof -
  let ?S0 = "S[i := (S ! i)\<lparr>isIncluded := True\<rparr>]"
  let ?m = "module (S ! i)"
  let ?definers = "recorded (definitions ?m) (dependsOn (S ! i))"
  let ?modifiers = "recorded (modifications ?m) (defines_s (S ! i))"
  from enough have "pending S < Suc fuel" by simp
  from expand_total [OF this] obtain r S' where run: "expand (Suc fuel) S i = Some (r, S')"
    by blast
  from expand_parts [OF run i] obtain r1 S1 r2 where
    d: "sequence (include_dependency fuel ?m) (dependsOn (S ! i)) ?S0 = Some (r1, S1)"
    and m: "sequence (include_modifiers fuel ?m) (defines_s (S ! i)) S1 = Some (r2, S')"
    and r: "r = r1 @ [i] @ r2" and g1: "grows ?S0 r1 S1" and g2: "grows S1 r2 S'"
    by blast
  have len: "length S1 = length S" "length S' = length S"
    using grows_length [OF g1] grows_length [OF g2] by simp_all
  have i0: "isIncluded (?S0 ! i)" using i(1) by simp
  have i1: "isIncluded (S1 ! i)" using grows_keeps [OF g1] i0 i(1) by simp
  have n1: "i \<notin> set r1" using grows_set [OF g1] i0 by simp
  have n2: "i \<notin> set r2" using grows_set [OF g2] i1 by simp
  have dist: "distinct r" using expand_grows [OF run] grows_distinct by blast
  have d1: "sequence (\<lambda>nm T. define_m fuel T ?m nm) (dependsOn (S ! i)) ?S0 = Some (r1, S1)"
    using d unfolding include_dependency_def [abs_def] .
  have d2: "sequence (\<lambda>k U. expand fuel U k) ?definers ?S0 = Some (r1, S1)"
    using d1 unfolding dependencies_recorded .
  have m2: "sequence (\<lambda>j U. if j < length U \<and> \<not> isIncluded (U ! j)
                           then expand fuel U j else Some ([], U)) ?modifiers S1 = Some (r2, S')"
    using m unfolding modifiers_recorded .
  have m3: "sequence (include_modifier fuel) ?modifiers S1 = Some (r2, S')"
    using m2 unfolding include_modifier_def [abs_def] .
  have definers_in: "\<forall>k \<in> set ?definers. k < length S1 \<longrightarrow> isIncluded (S1 ! k)"
    by (rule sequence_establishes [where f = "\<lambda>k U. expand fuel U k"
           and Post = "\<lambda>k U. k < length U \<longrightarrow> isIncluded (U ! k)", OF _ _ d2])
       (use expand_includes_later included_kept in blast)+
  have modifiers_in: "\<forall>j \<in> set ?modifiers. j < length S' \<longrightarrow> isIncluded (S' ! j)"
    by (rule sequence_establishes [where f = "include_modifier fuel"
           and Post = "\<lambda>j U. j < length U \<longrightarrow> isIncluded (U ! j)", OF _ _ m3])
       (use include_modifier_includes included_kept in blast)+
  have deps: "\<forall>k \<in> set ?definers. k < length S \<longrightarrow>
                 isIncluded (S1 ! k) \<and> k \<notin> set r2 \<and>
                 (\<not> isIncluded (S ! k) \<and> k \<noteq> i \<longrightarrow> k \<in> set r1)"
  proof (intro ballI impI)
    fix k assume k: "k \<in> set ?definers" "k < length S"
    have inc: "isIncluded (S1 ! k)" using definers_in k len by simp
    have later: "k \<notin> set r2" using grows_set [OF g2] inc by simp
    have "k \<in> set r1" if "\<not> isIncluded (S ! k) \<and> k \<noteq> i"
    proof -
      have "?S0 ! k = S ! k" using that by simp
      then show ?thesis using grows_set [OF g1] inc k(2) that by simp
    qed
    then show "isIncluded (S1 ! k) \<and> k \<notin> set r2 \<and>
                 (\<not> isIncluded (S ! k) \<and> k \<noteq> i \<longrightarrow> k \<in> set r1)"
      using inc later by blast
  qed
  have mods: "\<forall>j \<in> set ?modifiers. j < length S \<longrightarrow>
                 isIncluded (S' ! j) \<and> (\<not> isIncluded (S1 ! j) \<longrightarrow> j \<in> set r2)"
  proof (intro ballI impI)
    fix j assume j: "j \<in> set ?modifiers" "j < length S"
    have inc: "isIncluded (S' ! j)" using modifiers_in j len by simp
    have "\<not> isIncluded (S1 ! j) \<longrightarrow> j \<in> set r2"
      using grows_set [OF g2] inc j(2) len by simp
    then show "isIncluded (S' ! j) \<and> (\<not> isIncluded (S1 ! j) \<longrightarrow> j \<in> set r2)" using inc by simp
  qed
  have session: "\<forall>ids T. pending T < fuel' \<longrightarrow>
              (\<exists>rs T'. sequence (\<lambda>k U. expand fuel' U k) ids T = Some (rs, T') \<and> distinct rs)"
  proof (intro allI impI)
    fix ids :: "nat list" and T :: session
    assume p: "pending T < fuel'"
    have "\<exists>rs T'. sequence (\<lambda>k U. expand fuel' U k) ids T = Some (rs, T') \<and> grows T rs T'"
    proof (rule sequence_total [where n = "fuel' - 1"])
      fix k U assume "k \<in> set ids" "pending U \<le> fuel' - 1"
      then have "pending U < fuel'" using p by simp
      from expand_total [OF this] obtain q U' where e: "expand fuel' U k = Some (q, U')" by blast
      then show "\<exists>q U'. expand fuel' U k = Some (q, U') \<and> grows U q U'"
        using expand_grows by blast
    next
      show "pending T \<le> fuel' - 1" using p by simp
    qed
    then show "\<exists>rs T'. sequence (\<lambda>k U. expand fuel' U k) ids T = Some (rs, T') \<and> distinct rs"
      using grows_distinct by blast
  qed
  show ?thesis
    using run r n1 n2 dist d1 deps m2 mods session by blast
qed


theorem expand_order_witness:
  "pending three_statements \<le> 3 \<and>
   expand (Suc 3) three_statements 0 = Some ([2, 0, 1], map (\<lambda>s. s\<lparr>isIncluded := True\<rparr>) three_statements) \<and>
   sequence (\<lambda>nm T. define_m 3 T (module (three_statements ! 0)) nm)
       (dependsOn (three_statements ! 0))
       (three_statements[0 := (three_statements ! 0)\<lparr>isIncluded := True\<rparr>]) =
     Some ([2], (three_statements[0 := (three_statements ! 0)\<lparr>isIncluded := True\<rparr>,
                          2 := (three_statements ! 2)\<lparr>isIncluded := True\<rparr>])) \<and>
   recorded (modifications (module (three_statements ! 0))) (defines_s (three_statements ! 0)) = [1] \<and>
   \<not> isIncluded ((three_statements[0 := (three_statements ! 0)\<lparr>isIncluded := True\<rparr>,
                          2 := (three_statements ! 2)\<lparr>isIncluded := True\<rparr>]) ! 1) \<and>
   sequence (\<lambda>j U. if j < length U \<and> \<not> isIncluded (U ! j) then expand 3 U j else Some ([], U))
       (recorded (modifications (module (three_statements ! 0))) (defines_s (three_statements ! 0)))
       (three_statements[0 := (three_statements ! 0)\<lparr>isIncluded := True\<rparr>,
                          2 := (three_statements ! 2)\<lparr>isIncluded := True\<rparr>]) =
     Some ([1], map (\<lambda>s. s\<lparr>isIncluded := True\<rparr>) three_statements) \<and>
   expand (Suc 2) two_statements 0 =
     Some ([1, 0], map (\<lambda>s. s\<lparr>isIncluded := True\<rparr>) two_statements)"
proof -
  let ?X = "(three_statements[0 := (three_statements ! 0)\<lparr>isIncluded := True\<rparr>,
                          2 := (three_statements ! 2)\<lparr>isIncluded := True\<rparr>])"
  have h: "0 < length three_statements" "\<not> isIncluded (three_statements ! 0)"
      "pending three_statements \<le> 3"
    by (simp_all add: three_statements_def Let_def Statement_def pending_def)
  have run: "expand (Suc 3) three_statements 0 = Some ([2, 0, 1], map (\<lambda>s. s\<lparr>isIncluded := True\<rparr>) three_statements)"
    by code_simp
  have deps: "sequence (\<lambda>nm T. define_m 3 T (module (three_statements ! 0)) nm)
       (dependsOn (three_statements ! 0))
       (three_statements[0 := (three_statements ! 0)\<lparr>isIncluded := True\<rparr>]) =
     Some ([2], ?X)"
    by code_simp
  have mods: "recorded (modifications (module (three_statements ! 0)))
                (defines_s (three_statements ! 0)) = [1]"
    by code_simp
  have pend: "\<not> isIncluded (?X ! 1)"
    by (simp add: three_statements_def Let_def Statement_def)
  have cyclic: "expand (Suc 2) two_statements 0 =
     Some ([1, 0], map (\<lambda>s. s\<lparr>isIncluded := True\<rparr>) two_statements)"
    by code_simp
  from expand_order [OF h, where fuel' = 0] obtain r S' r1 S1 r2 where
    a: "expand (Suc 3) three_statements 0 = Some (r, S')"
    and b: "r = r1 @ [0] @ r2"
    and c: "sequence (\<lambda>nm T. define_m 3 T (module (three_statements ! 0)) nm)
       (dependsOn (three_statements ! 0))
       (three_statements[0 := (three_statements ! 0)\<lparr>isIncluded := True\<rparr>]) =
       Some (r1, S1)"
    and e: "sequence (\<lambda>j U. if j < length U \<and> \<not> isIncluded (U ! j) then expand 3 U j else Some ([], U))
       (recorded (modifications (module (three_statements ! 0))) (defines_s (three_statements ! 0)))
       S1 = Some (r2, S')"
    by blast
  from a run have "r = [2, 0, 1]" "S' = map (\<lambda>s. s\<lparr>isIncluded := True\<rparr>) three_statements" by simp_all
  moreover from c deps have "r1 = [2]" "S1 = ?X" by simp_all
  ultimately have "sequence (\<lambda>j U. if j < length U \<and> \<not> isIncluded (U ! j) then expand 3 U j else Some ([], U))
       (recorded (modifications (module (three_statements ! 0))) (defines_s (three_statements ! 0)))
       ?X = Some ([1], map (\<lambda>s. s\<lparr>isIncluded := True\<rparr>) three_statements)"
    using b e by simp
  then show ?thesis using h(3) run deps mods pend cyclic by blast
qed

text \<open>
  Claim C2. A call of \<^verbatim>\<open>expand()\<close> on a statement that is included returns the empty
  list and leaves the session as it is. A call that returns never resets
  \<^verbatim>\<open>isIncluded\<close> of any statement and leaves its own statement included, so that a
  second call returns the empty list; with more fuel it returns the same. The flag
  is set before the recursion starts: in every session that the recursion reaches,
  a call on the statement returns the empty list. So the recursion ends also on
  cyclic dependencies: more fuel than there are statements not yet included
  suffices for a result.
\<close>

theorem expand_gate:
  "(i < length S \<and> isIncluded (S ! i) \<longrightarrow> expand (Suc fuel) S i = Some ([], S)) \<and>
   (expand fuel S i = Some (r, S') \<longrightarrow>
      length S' = length S \<and>
      (\<forall>k < length S. isIncluded (S ! k) \<longrightarrow> isIncluded (S' ! k)) \<and>
      (i < length S \<longrightarrow> isIncluded (S' ! i)) \<and>
      expand (Suc fuel') S' i = Some ([], S') \<and>
      expand (Suc fuel) S i = Some (r, S')) \<and>
   (i < length S \<and> \<not> isIncluded (S ! i) \<and> grows (S[i := (S ! i)\<lparr>isIncluded := True\<rparr>]) p T \<longrightarrow>
      expand (Suc fuel) T i = Some ([], T)) \<and>
   (pending S < fuel \<longrightarrow> (\<exists>r S'. expand fuel S i = Some (r, S')))"
proof -
  have a: "i < length S \<and> isIncluded (S ! i) \<longrightarrow> expand (Suc fuel) S i = Some ([], S)"
    by (simp add: expand_Suc)
  have b: "length S' = length S \<and>
      (\<forall>k < length S. isIncluded (S ! k) \<longrightarrow> isIncluded (S' ! k)) \<and>
      (i < length S \<longrightarrow> isIncluded (S' ! i)) \<and>
      expand (Suc fuel') S' i = Some ([], S') \<and>
      expand (Suc fuel) S i = Some (r, S')" if run: "expand fuel S i = Some (r, S')"
  proof -
    have g: "grows S r S'" using run by (rule expand_grows)
    have len: "length S' = length S" using g by (rule grows_length)
    have keep: "\<forall>k < length S. isIncluded (S ! k) \<longrightarrow> isIncluded (S' ! k)"
      using grows_keeps [OF g] by blast
    have inc: "i < length S \<longrightarrow> isIncluded (S' ! i)" using expand_includes [OF run] by blast
    have again: "expand (Suc fuel') S' i = Some ([], S')"
      using inc len by (simp add: expand_Suc)
    show ?thesis using len keep inc again expand_more_fuel [OF run] by blast
  qed
  have c: "expand (Suc fuel) T i = Some ([], T)"
    if "i < length S" "\<not> isIncluded (S ! i)" "grows (S[i := (S ! i)\<lparr>isIncluded := True\<rparr>]) p T"
  proof -
    have "isIncluded (T ! i)" using grows_keeps [OF that(3)] that(1) by simp
    moreover have "length T = length S" using grows_length [OF that(3)] by simp
    ultimately show ?thesis using that(1) by (simp add: expand_Suc)
  qed
  show ?thesis using a b c expand_total [of S fuel i] by blast
qed

theorem expand_gate_witness:
  "expand 3 two_statements 0 =
     Some ([1, 0], map (\<lambda>s. s\<lparr>isIncluded := True\<rparr>) two_statements) \<and>
   expand 1 (map (\<lambda>s. s\<lparr>isIncluded := True\<rparr>) two_statements) 0 =
     Some ([], map (\<lambda>s. s\<lparr>isIncluded := True\<rparr>) two_statements) \<and>
   pending two_statements < 3"
proof -
  let ?S' = "map (\<lambda>s. s\<lparr>isIncluded := True\<rparr>) two_statements"
  have run: "expand 3 two_statements 0 = Some ([1, 0], ?S')" by code_simp
  have p: "pending two_statements < 3" by code_simp
  have "expand (Suc 0) ?S' 0 = Some ([], ?S')"
    using expand_gate [where i = 0 and S = two_statements and fuel = 3 and r = "[1, 0]"
        and S' = ?S' and fuel' = 0] run by blast
  then show ?thesis using run p by simp
qed

end
